theory Spec2Isabelle
  imports Main "HOL-Library.Word"
begin

unbundle bit_operations_syntax

section \<open>Data model\<close>

text \<open>
  Bytes are 8-bit words. A JavaScript string is a sequence of UTF-16 code units.
  JavaScript numbers that hold lengths and offsets are modelled as \<open>nat\<close>: they are
  non-negative integers far below \<open>2 ^ 53\<close>, where doubles are exact.
\<close>

type_synonym byte = "8 word"
type_synonym jsstring = "16 word list"

datatype error =
    InvalidCharacterError
  | RangeError
  | GatewayError jsstring

text \<open>One element of \<open>convertedImages\<close>: the fields of the gateway's JSON answer that
  \<open>createZipFromBase64Images\<close> reads (\<open>img.filename\<close>, \<open>img.data\<close>).\<close>

record image =
  filename :: jsstring
  data :: jsstring

text \<open>The object pushed on \<open>centralDirectory\<close>: \<open>{offset, filenameBytes, size}\<close>.\<close>

record cd_entry =
  cd_offset :: nat
  cd_filenameBytes :: "byte list"
  cd_size :: nat

text \<open>\<open>new Blob(zipParts, { type: 'application/zip' })\<close>: the parts concatenated, and the
  media type.\<close>

record blob =
  blob_bytes :: "byte list"
  blob_type :: string

section \<open>Platform functions used by the encoder\<close>

subsection \<open>\<open>atob\<close>: forgiving base64 decoding\<close>

definition is_ascii_whitespace :: "16 word \<Rightarrow> bool" where
  "is_ascii_whitespace c = (c = 0x09 \<or> c = 0x0A \<or> c = 0x0C \<or> c = 0x0D \<or> c = 0x20)"

definition b64_value :: "16 word \<Rightarrow> nat option" where
  "b64_value c =
     (if 0x41 \<le> c \<and> c \<le> 0x5A then Some (unat c - 0x41)
      else if 0x61 \<le> c \<and> c \<le> 0x7A then Some (unat c - 0x61 + 26)
      else if 0x30 \<le> c \<and> c \<le> 0x39 then Some (unat c - 0x30 + 52)
      else if c = 0x2B then Some 62
      else if c = 0x2F then Some 63
      else None)"

definition strip_padding :: "jsstring \<Rightarrow> jsstring" where
  "strip_padding s =
     (if length s mod 4 = 0 \<and> s \<noteq> [] \<and> last s = 0x3D then
        (if butlast s \<noteq> [] \<and> last (butlast s) = 0x3D then butlast (butlast s) else butlast s)
      else s)"

text \<open>The decoded characters of the binary string, four sextets at a time; a final group of
  two or three sextets gives one or two characters, the spare low bits being dropped.\<close>

fun b64_groups :: "nat list \<Rightarrow> 16 word list" where
  "b64_groups (a # b # c # d # rest) =
     of_nat (a * 4 + b div 16) # of_nat ((b mod 16) * 16 + c div 4) #
     of_nat ((c mod 4) * 64 + d) # b64_groups rest"
| "b64_groups [a, b, c] = [of_nat (a * 4 + b div 16), of_nat ((b mod 16) * 16 + c div 4)]"
| "b64_groups [a, b] = [of_nat (a * 4 + b div 16)]"
| "b64_groups _ = []"

fun b64_values :: "jsstring \<Rightarrow> nat list option" where
  "b64_values [] = Some []"
| "b64_values (c # cs) =
     (case b64_value c of None \<Rightarrow> None
      | Some v \<Rightarrow> (case b64_values cs of None \<Rightarrow> None | Some vs \<Rightarrow> Some (v # vs)))"

definition atob :: "jsstring \<Rightarrow> error + jsstring" where
  "atob s =
     (let t = strip_padding (filter (\<lambda>c. \<not> is_ascii_whitespace c) s) in
      if length t mod 4 = 1 then Inl InvalidCharacterError
      else (case b64_values t of
              None \<Rightarrow> Inl InvalidCharacterError
            | Some vs \<Rightarrow> Inr (b64_groups vs)))"

subsection \<open>\<open>TextEncoder.encode\<close>: UTF-8, lone surrogates replaced by U+FFFD\<close>

definition is_lead_surrogate :: "16 word \<Rightarrow> bool" where
  "is_lead_surrogate u = (0xD800 \<le> u \<and> u \<le> 0xDBFF)"

definition is_trail_surrogate :: "16 word \<Rightarrow> bool" where
  "is_trail_surrogate u = (0xDC00 \<le> u \<and> u \<le> 0xDFFF)"

fun scalar_values :: "jsstring \<Rightarrow> nat list" where
  "scalar_values [] = []"
| "scalar_values [u] =
     (if is_lead_surrogate u \<or> is_trail_surrogate u then [0xFFFD] else [unat u])"
| "scalar_values (u # v # rest) =
     (if is_lead_surrogate u then
        (if is_trail_surrogate v
         then (0x10000 + (unat u - 0xD800) * 1024 + (unat v - 0xDC00)) # scalar_values rest
         else 0xFFFD # scalar_values (v # rest))
      else if is_trail_surrogate u then 0xFFFD # scalar_values (v # rest)
      else unat u # scalar_values (v # rest))"

definition utf8_bytes :: "nat \<Rightarrow> byte list" where
  "utf8_bytes cp =
     (if cp < 0x80 then [of_nat cp]
      else if cp < 0x800 then [of_nat (0xC0 + cp div 64), of_nat (0x80 + cp mod 64)]
      else if cp < 0x10000 then
        [of_nat (0xE0 + cp div 4096), of_nat (0x80 + (cp div 64) mod 64),
         of_nat (0x80 + cp mod 64)]
      else
        [of_nat (0xF0 + cp div 262144), of_nat (0x80 + (cp div 4096) mod 64),
         of_nat (0x80 + (cp div 64) mod 64), of_nat (0x80 + cp mod 64)])"

definition TextEncoder_encode :: "jsstring \<Rightarrow> byte list" where
  "TextEncoder_encode s = concat (map utf8_bytes (scalar_values s))"

subsection \<open>\<open>DataView\<close> setters, little-endian\<close>

text \<open>\<open>setUint16\<close> and \<open>setUint32\<close> reduce the number modulo \<open>2 ^ 16\<close> resp.
  \<open>2 ^ 32\<close> (ToUint16, ToUint32) and store the bytes least significant first. A write
  that does not fit the buffer raises \<open>RangeError\<close>.\<close>

definition le16 :: "nat \<Rightarrow> byte list" where
  "le16 v = (let w = v mod 2 ^ 16 in [of_nat (w mod 256), of_nat (w div 256)])"

definition le32 :: "nat \<Rightarrow> byte list" where
  "le32 v =
     (let w = v mod 2 ^ 32 in
      [of_nat (w mod 256), of_nat (w div 256 mod 256),
       of_nat (w div 65536 mod 256), of_nat (w div 16777216)])"

definition set_at :: "byte list \<Rightarrow> nat \<Rightarrow> byte list \<Rightarrow> error + byte list" where
  "set_at buf pos src =
     (if pos + length src \<le> length buf
      then Inr (take pos buf @ src @ drop (pos + length src) buf)
      else Inl RangeError)"

definition setUint16 :: "byte list \<Rightarrow> nat \<Rightarrow> nat \<Rightarrow> error + byte list" where
  "setUint16 view pos v = set_at view pos (le16 v)"

definition setUint32 :: "byte list \<Rightarrow> nat \<Rightarrow> nat \<Rightarrow> error + byte list" where
  "setUint32 view pos v = set_at view pos (le32 v)"

text \<open>One statement \<open>view.setUintNN(pos, value, true)\<close>, and a block of them run in order.\<close>

datatype view_write = U16 nat nat | U32 nat nat

fun write_field :: "byte list \<Rightarrow> view_write \<Rightarrow> error + byte list" where
  "write_field view (U16 pos v) = setUint16 view pos v"
| "write_field view (U32 pos v) = setUint32 view pos v"

fun write_fields :: "byte list \<Rightarrow> view_write list \<Rightarrow> error + byte list" where
  "write_fields view [] = Inr view"
| "write_fields view (w # ws) =
     (case write_field view w of Inl e \<Rightarrow> Inl e | Inr view' \<Rightarrow> write_fields view' ws)"

section \<open>The archive encoder \<open>createZipFromBase64Images\<close>\<close>

definition LOCAL_FILE_HEADER_SIG :: nat where
  "LOCAL_FILE_HEADER_SIG = 0x04034b50"

definition CENTRAL_DIR_HEADER_SIG :: nat where
  "CENTRAL_DIR_HEADER_SIG = 0x02014b50"

definition END_OF_CENTRAL_DIR_SIG :: nat where
  "END_OF_CENTRAL_DIR_SIG = 0x06054b50"

text \<open>Buffers are byte lists of any length: an allocation never fails for lack of
  memory.\<close>

text \<open>The inner loop \<open>bytes[i] = binaryString.charCodeAt(i)\<close> over a fresh
  \<open>Uint8Array(binaryString.length)\<close>: each code unit is stored modulo 256.\<close>

definition binary_bytes :: "jsstring \<Rightarrow> byte list" where
  "binary_bytes binaryString = map ucast binaryString"

text \<open>The local file header of one image: a zeroed \<open>ArrayBuffer(30 + filenameBytes.length)\<close>,
  the eleven writes, then the file name copied at position 30.\<close>

definition localHeader :: "byte list \<Rightarrow> nat \<Rightarrow> error + byte list" where
  "localHeader filenameBytes bytes_length =
     (case write_fields (replicate (30 + length filenameBytes) 0)
             [U32 0 LOCAL_FILE_HEADER_SIG,
              U16 4 20,
              U16 6 0,
              U16 8 0,
              U16 10 0,
              U16 12 0,
              U32 14 0,
              U32 18 bytes_length,
              U32 22 bytes_length,
              U16 26 (length filenameBytes),
              U16 28 0] of
        Inl e \<Rightarrow> Inl e
      | Inr view \<Rightarrow> set_at view 30 filenameBytes)"

text \<open>The first loop, \<open>for (const img of images)\<close>, over the state
  \<open>(zipParts, offset, centralDirectory)\<close>.\<close>

fun entries_loop ::
  "image list \<Rightarrow> byte list list \<times> nat \<times> cd_entry list \<Rightarrow>
   error + byte list list \<times> nat \<times> cd_entry list" where
  "entries_loop [] st = Inr st"
| "entries_loop (img # imgs) (zipParts, offset, centralDirectory) =
     (case atob (data img) of
        Inl e \<Rightarrow> Inl e
      | Inr binaryString \<Rightarrow>
          (let bytes = binary_bytes binaryString;
               filenameBytes = TextEncoder_encode (filename img)
           in case localHeader filenameBytes (length bytes) of
                Inl e \<Rightarrow> Inl e
              | Inr lh \<Rightarrow>
                  entries_loop imgs
                    (zipParts @ [lh, bytes],
                     offset + length lh + length bytes,
                     centralDirectory @
                       [\<lparr>cd_offset = offset, cd_filenameBytes = filenameBytes,
                         cd_size = length bytes\<rparr>])))"

definition centralHeader :: "cd_entry \<Rightarrow> error + byte list" where
  "centralHeader entry =
     (case write_fields (replicate (46 + length (cd_filenameBytes entry)) 0)
             [U32 0 CENTRAL_DIR_HEADER_SIG,
              U16 4 20,
              U16 6 20,
              U16 8 0,
              U16 10 0,
              U16 12 0,
              U16 14 0,
              U32 16 0,
              U32 20 (cd_size entry),
              U32 24 (cd_size entry),
              U16 28 (length (cd_filenameBytes entry)),
              U16 30 0,
              U16 32 0,
              U16 34 0,
              U16 36 0,
              U32 38 0,
              U32 42 (cd_offset entry)] of
        Inl e \<Rightarrow> Inl e
      | Inr view \<Rightarrow> set_at view 46 (cd_filenameBytes entry))"

text \<open>The second loop, \<open>for (const entry of centralDirectory)\<close>, over
  \<open>(zipParts, offset)\<close>.\<close>

fun central_loop ::
  "cd_entry list \<Rightarrow> byte list list \<times> nat \<Rightarrow> error + byte list list \<times> nat" where
  "central_loop [] st = Inr st"
| "central_loop (entry # entries) (zipParts, offset) =
     (case centralHeader entry of
        Inl e \<Rightarrow> Inl e
      | Inr ch \<Rightarrow> central_loop entries (zipParts @ [ch], offset + length ch))"

definition endRecord :: "nat \<Rightarrow> nat \<Rightarrow> nat \<Rightarrow> error + byte list" where
  "endRecord count centralDirSize centralDirOffset =
     write_fields (replicate 22 0)
       [U32 0 END_OF_CENTRAL_DIR_SIG,
        U16 4 0,
        U16 6 0,
        U16 8 count,
        U16 10 count,
        U32 12 centralDirSize,
        U32 16 centralDirOffset,
        U16 20 0]"

definition createZipFromBase64Images :: "image list \<Rightarrow> error + blob" where
  "createZipFromBase64Images images =
     (case entries_loop images ([], 0, []) of
        Inl e \<Rightarrow> Inl e
      | Inr (zipParts, offset, centralDirectory) \<Rightarrow>
          (let centralDirOffset = offset in
           case central_loop centralDirectory (zipParts, offset) of
             Inl e \<Rightarrow> Inl e
           | Inr (zipParts', offset') \<Rightarrow>
               (let centralDirSize = offset' - centralDirOffset in
                case endRecord (length centralDirectory) centralDirSize centralDirOffset of
                  Inl e \<Rightarrow> Inl e
                | Inr er \<Rightarrow>
                    Inr \<lparr>blob_bytes = concat (zipParts' @ [er]),
                         blob_type = ''application/zip''\<rparr>)))"

section \<open>The batch orchestrator \<open>convertBulkWithProgress\<close>\<close>

text \<open>The status strings \<open>'pending'\<close>, \<open>'converting'\<close>, \<open>'done'\<close> and \<open>'error'\<close>; the
  last one is the item state the specification calls Failed.\<close>

datatype status = Pending | Converting | Done | Error

text \<open>An element of \<open>currentFiles\<close>.\<close>

record input_file =
  file_name :: jsstring
  file_payload :: "byte list"

text \<open>The two toasts of the function: \<open>'No images could be converted'\<close> (kind
  \<open>'error'\<close>) and \<open>`${n} images converted successfully!`\<close> (kind \<open>'success'\<close>).\<close>

datatype toast = NoImagesCouldBeConverted | ImagesConvertedSuccessfully nat

text \<open>
  The file list of the page. \<open>showFileList\<close> writes one row of markup per file into
  \<open>innerHTML\<close>, with the file's name, unescaped, as text of the row, and
  \<open>updateFileStatus\<close> looks a row up with \<open>querySelector('[data-index="i"]')\<close>. So
  the list is modelled as what those queries see: the elements that carry a
  \<open>data-index\<close> attribute, in document order, each with
  \<^item> \<open>row_index\<close>, the value of the attribute;
  \<^item> \<open>row_status\<close>, its class: \<open>file-list-item\<close> alone is \<open>Pending\<close>,
    \<open>file-list-item file-list-item-converting\<close> is \<open>Converting\<close>, and so on;
  \<^item> \<open>row_indicator\<close>, the status its indicator shows (the remove button counts as
    the indicator of \<open>Pending\<close>), or \<open>None\<close> when the row has no element of class
    \<open>file-list-item-status\<close> or \<open>file-list-item-remove\<close>;

  and the header's text \<open>`${done}/${total} converted`\<close> as the pair of its numbers.
\<close>

record row =
  row_index :: nat
  row_status :: status
  row_indicator :: "status option"

record page =
  page_rows :: "row list"
  page_header :: "nat \<times> nat"

text \<open>
  The variables of one run and what it leaves in the page:
  \<^item> \<open>convertedImages\<close> and \<open>errorCount\<close>, the two locals of the function;
  \<^item> \<open>fileList\<close>, the file list of the page, or \<open>None\<close> where this model does not
    follow what the browser builds (see \<open>showFileList\<close>);
  \<^item> \<open>buttonProgress\<close>, the arguments of every \<open>updateButtonProgress\<close> call;
  \<^item> \<open>zipCalls\<close>, the argument of every call of \<open>createZipFromBase64Images\<close>;
  \<^item> \<open>download\<close>, the blob and file name behind the download button;
  \<^item> \<open>resultInfo\<close>, the numbers of converted and of failed images in the result text;
  \<^item> \<open>toasts\<close>, the toasts shown;
  \<^item> \<open>thrown\<close>, the exception the function ends with, if any.
\<close>

record bulk_state =
  convertedImages :: "image list"
  errorCount :: nat
  fileList :: "page option"
  buttonProgress :: "(nat \<times> nat) list"
  zipCalls :: "image list list"
  download :: "(blob \<times> string) option"
  resultInfo :: "(nat \<times> nat) option"
  toasts :: "toast list"
  thrown :: "error option"

text \<open>
  A run is modelled from the call of \<open>convertBulkWithProgress\<close> to its end with no other
  event handler of the page running in between: \<open>currentFiles\<close> and the rendered list
  are touched by the loop alone. The gateway's answer is taken to have the two string
  fields the encoder reads.
\<close>

text \<open>The conversion gateway: the \<open>fetch\<close> of \<open>/api/image/convert-single\<close> for the
  \<open>i\<close>-th call with its file, which either yields the parsed JSON answer or throws
  (rejected fetch, answer that is not ok, unparsable body).\<close>

type_synonym gateway = "nat \<Rightarrow> input_file \<Rightarrow> error + image"

subsection \<open>\<open>showFileList\<close>: what the browser builds from the markup\<close>

text \<open>
  In the markup of a row the name stands twice as text: the part after its last dot,
  upper-cased, in the icon, and the whole name in the name span, each directly followed
  by an end tag. Everything else in the markup is fixed, or a number.
  \<^item> A text without \<open><\<close> opens no tag and no comment (\<open>&\<close> only changes
    characters). When no name has a \<open><\<close>, the list has one row per file, in order,
    with class \<open>file-list-item\<close> and a remove button.
  \<^item> A name such as \<open>a<!--.png\<close> opens a comment inside the name span. A comment ends
    with \<open>-->\<close> or \<open>--!>\<close> only, and no \<open>>\<close> of the fixed markup follows a
    \<open>-\<close> or a \<open>!\<close>; so when neither that name nor a later one holds a \<open>>\<close>, the
    comment runs to the end of the markup. The rows before that file are whole, its own
    row is there without its remove button, and the later files have no row.
  \<^item> Any other name with a \<open><\<close> (a tag, for one) is parsed by the browser in ways
    this model does not follow: the list is \<open>None\<close>, and nothing is said about it.
\<close>

definition has_lt :: "jsstring \<Rightarrow> bool" where
  "has_lt s = (0x3C \<in> set s)"

definition has_gt :: "jsstring \<Rightarrow> bool" where
  "has_gt s = (0x3E \<in> set s)"

text \<open>\<open>name.split('.').pop()\<close>, and whether the first \<open><\<close> of a name starts
  \<open><!--\<close>.\<close>

definition last_segment :: "jsstring \<Rightarrow> jsstring" where
  "last_segment name = rev (takeWhile (\<lambda>c. c \<noteq> 0x2E) (rev name))"

definition opens_comment :: "jsstring \<Rightarrow> bool" where
  "opens_comment name =
     (take 4 (dropWhile (\<lambda>c. c \<noteq> 0x3C) name) = [0x3C, 0x21, 0x2D, 0x2D])"

text \<open>The index of the first file whose name has a \<open><\<close>.\<close>

fun first_markup :: "input_file list \<Rightarrow> nat option" where
  "first_markup [] = None"
| "first_markup (f # fs) =
     (if has_lt (file_name f) then Some 0 else map_option Suc (first_markup fs))"

definition whole_row :: "nat \<Rightarrow> row" where
  "whole_row i = \<lparr>row_index = i, row_status = Pending, row_indicator = Some Pending\<rparr>"

definition cut_row :: "nat \<Rightarrow> row" where
  "cut_row i = \<lparr>row_index = i, row_status = Pending, row_indicator = None\<rparr>"

text \<open>\<open>showFileList(currentFiles, statuses)\<close> as the run calls it, with every status
  \<open>'pending'\<close>: no row is done, so the header reads \<open>0/n converted\<close>.\<close>

definition showFileList :: "input_file list \<Rightarrow> page option" where
  "showFileList files =
     (case first_markup files of
        None \<Rightarrow>
          Some \<lparr>page_rows = map whole_row [0..<length files],
                page_header = (0, length files)\<rparr>
      | Some k \<Rightarrow>
          (if opens_comment (file_name (files ! k)) \<and>
              \<not> has_lt (last_segment (file_name (files ! k))) \<and>
              list_all (\<lambda>f. \<not> has_gt (file_name f)) (drop k files)
           then Some \<lparr>page_rows = map whole_row [0..<k] @ [cut_row k],
                      page_header = (0, length files)\<rparr>
           else None))"

subsection \<open>\<open>updateFileStatus\<close>\<close>

text \<open>\<open>querySelector\<close>: the position of the first row with that \<open>data-index\<close>.\<close>

fun find_row :: "nat \<Rightarrow> row list \<Rightarrow> nat option" where
  "find_row index [] = None"
| "find_row index (r # rs) =
     (if row_index r = index then Some 0 else map_option Suc (find_row index rs))"

text \<open>The new class of the row, and the new indicator in place of the old one when the row
  has one and the status is \<open>'done'\<close>, \<open>'converting'\<close> or \<open>'error'\<close>.\<close>

definition set_status :: "status \<Rightarrow> row \<Rightarrow> row" where
  "set_status st r =
     r\<lparr>row_status := st,
       row_indicator :=
         (case row_indicator r of
            None \<Rightarrow> None
          | Some old \<Rightarrow> (if st = Pending then Some old else Some st))\<rparr>"

text \<open>
  \<open>updateFileStatus(index, status)\<close>, with \<open>currentFiles.length\<close> as \<open>n\<close>: it returns
  at once when the list has no row of that index; else it sets the row's class and
  indicator and writes the number of rows of class \<open>file-list-item-done\<close> into the
  header.
\<close>

definition updateFileStatus :: "nat \<Rightarrow> nat \<Rightarrow> status \<Rightarrow> bulk_state \<Rightarrow> bulk_state" where
  "updateFileStatus n index st s =
     (case fileList s of
        None \<Rightarrow> s
      | Some pg \<Rightarrow>
          (case find_row index (page_rows pg) of
             None \<Rightarrow> s
           | Some j \<Rightarrow>
               (let rs = (page_rows pg)[j := set_status st (page_rows pg ! j)]
                in s\<lparr>fileList :=
                       Some \<lparr>page_rows = rs,
                             page_header =
                               (length (filter (\<lambda>r. row_status r = Done) rs), n)\<rparr>\<rparr>)))"

subsection \<open>The loop and the packaging\<close>

definition updateButtonProgress :: "nat \<Rightarrow> nat \<Rightarrow> bulk_state \<Rightarrow> bulk_state" where
  "updateButtonProgress current tot s =
     s\<lparr>buttonProgress := buttonProgress s @ [(current, tot)]\<rparr>"

text \<open>The body of the loop for index \<open>i\<close>: the \<open>try\<close> block ends with the push and the
  status \<open>'done'\<close>; the \<open>catch\<close> block sets \<open>'error'\<close> and counts.\<close>

definition convert_step :: "gateway \<Rightarrow> input_file list \<Rightarrow> nat \<Rightarrow> bulk_state \<Rightarrow> bulk_state" where
  "convert_step gw currentFiles i s =
     (let f = currentFiles ! i;
          s1 = updateFileStatus (length currentFiles) i Converting s;
          s2 = updateButtonProgress (i + 1) (length currentFiles) s1
      in case gw i f of
           Inr result \<Rightarrow>
             updateFileStatus (length currentFiles) i Done
               (s2\<lparr>convertedImages := convertedImages s2 @ [result]\<rparr>)
         | Inl e \<Rightarrow>
             (let s3 = updateFileStatus (length currentFiles) i Error s2
              in s3\<lparr>errorCount := errorCount s3 + 1\<rparr>))"

function convert_loop :: "gateway \<Rightarrow> input_file list \<Rightarrow> nat \<Rightarrow> bulk_state \<Rightarrow> bulk_state" where
  "convert_loop gw currentFiles i s =
     (if i < length currentFiles
      then convert_loop gw currentFiles (i + 1) (convert_step gw currentFiles i s)
      else s)"
  by pat_completeness auto
termination
  by (relation "measure (\<lambda>(gw, currentFiles, i, s). length currentFiles - i)") auto

declare convert_loop.simps [simp del]

definition initial_state :: "input_file list \<Rightarrow> bulk_state" where
  "initial_state currentFiles =
     \<lparr>convertedImages = [], errorCount = 0,
      fileList = showFileList currentFiles,
      buttonProgress = [], zipCalls = [], download = None, resultInfo = None,
      toasts = [], thrown = None\<rparr>"

definition convertBulkWithProgress :: "gateway \<Rightarrow> input_file list \<Rightarrow> bulk_state" where
  "convertBulkWithProgress gw currentFiles =
     (let s = convert_loop gw currentFiles 0 (initial_state currentFiles) in
      if length (convertedImages s) > 0 then
        (let s' = s\<lparr>zipCalls := zipCalls s @ [convertedImages s]\<rparr> in
         case createZipFromBase64Images (convertedImages s) of
           Inl e \<Rightarrow> s'\<lparr>thrown := Some e\<rparr>
         | Inr zipBlob \<Rightarrow>
             s'\<lparr>download := Some (zipBlob, ''converted_images.zip''),
                resultInfo := Some (length (convertedImages s), errorCount s),
                toasts := toasts s' @ [ImagesConvertedSuccessfully (length (convertedImages s))]\<rparr>)
      else s\<lparr>toasts := toasts s @ [NoImagesCouldBeConverted]\<rparr>)"

text \<open>The gateway's answers for the items from index \<open>i\<close> on, in input order, and the
  answers of the items that succeeded.\<close>

definition outcomes_from :: "gateway \<Rightarrow> input_file list \<Rightarrow> nat \<Rightarrow> (error + image) list" where
  "outcomes_from gw currentFiles i = map (\<lambda>k. gw k (currentFiles ! k)) [i..<length currentFiles]"

definition succeeded :: "gateway \<Rightarrow> input_file list \<Rightarrow> image list" where
  "succeeded gw currentFiles =
     map projr (filter (\<lambda>r. \<not> isl r) (outcomes_from gw currentFiles 0))"

definition final_status :: "error + image \<Rightarrow> status" where
  "final_status r = (if isl r then Error else Done)"



section \<open>Reading an archive back\<close>

text \<open>Little-endian reads at a byte position, as a reader's \<open>getUint16\<close> and
  \<open>getUint32\<close>; \<open>None\<close> outside the buffer.\<close>

definition u16 :: "byte list \<Rightarrow> nat \<Rightarrow> nat" where
  "u16 buf pos = unat (buf ! pos) + 256 * unat (buf ! (pos + 1))"

definition u32 :: "byte list \<Rightarrow> nat \<Rightarrow> nat" where
  "u32 buf pos =
     unat (buf ! pos) + 256 * unat (buf ! (pos + 1)) + 65536 * unat (buf ! (pos + 2)) +
     16777216 * unat (buf ! (pos + 3))"

definition getUint16 :: "byte list \<Rightarrow> nat \<Rightarrow> nat option" where
  "getUint16 buf pos = (if pos + 2 \<le> length buf then Some (u16 buf pos) else None)"

definition getUint32 :: "byte list \<Rightarrow> nat \<Rightarrow> nat option" where
  "getUint32 buf pos = (if pos + 4 \<le> length buf then Some (u32 buf pos) else None)"

text \<open>The standard CRC-32 (reflected polynomial \<open>0xEDB88320\<close>, initial value and final
  complement \<open>0xFFFFFFFF\<close>), bit by bit.\<close>

definition crc32_shift :: "32 word \<Rightarrow> 32 word" where
  "crc32_shift c = (if c AND 1 = 1 then drop_bit 1 c XOR 0xEDB88320 else drop_bit 1 c)"

definition crc32_byte :: "32 word \<Rightarrow> byte \<Rightarrow> 32 word" where
  "crc32_byte c b =
     crc32_shift (crc32_shift (crc32_shift (crc32_shift
       (crc32_shift (crc32_shift (crc32_shift (crc32_shift (c XOR ucast b))))))))"

definition crc32 :: "byte list \<Rightarrow> 32 word" where
  "crc32 bs = foldl crc32_byte 0xFFFFFFFF bs XOR 0xFFFFFFFF"

text \<open>
  A reader of single-volume archives without compression and without archive comment. It
  takes the trailer from the end of the buffer, walks the index records and follows each to
  its local header. With \<open>verify\<close> set it rejects a member whose content does not have
  the recorded checksum, as the format asks; without it the checksum field is ignored.
\<close>

datatype read_error =
  NoTrailer | MultiVolume | Truncated | BadSignature | UnsupportedMethod | SizeMismatch |
  BadChecksum

record member =
  member_name :: "byte list"
  member_method :: nat
  member_content :: "byte list"

definition read_member :: "bool \<Rightarrow> byte list \<Rightarrow> nat \<Rightarrow> read_error + member \<times> nat" where
  "read_member verify buf pos =
     (if length buf < pos + 46 then Inl Truncated
      else if u32 buf pos \<noteq> CENTRAL_DIR_HEADER_SIG then Inl BadSignature
      else
        (let method = u16 buf (pos + 10);
             crc = u32 buf (pos + 16);
             csize = u32 buf (pos + 20);
             usize = u32 buf (pos + 24);
             nlen = u16 buf (pos + 28);
             xlen = u16 buf (pos + 30);
             clen = u16 buf (pos + 32);
             lho = u32 buf (pos + 42)
         in if length buf < pos + 46 + nlen + xlen + clen then Inl Truncated
            else if length buf < lho + 30 then Inl Truncated
            else if u32 buf lho \<noteq> LOCAL_FILE_HEADER_SIG then Inl BadSignature
            else
              (let start = lho + 30 + u16 buf (lho + 26) + u16 buf (lho + 28);
                   content = take csize (drop start buf)
               in if method \<noteq> 0 then Inl UnsupportedMethod
                  else if csize \<noteq> usize then Inl SizeMismatch
                  else if length buf < start + csize then Inl Truncated
                  else if verify \<and> unat (crc32 content) \<noteq> crc then Inl BadChecksum
                  else Inr (\<lparr>member_name = take nlen (drop (pos + 46) buf),
                             member_method = method,
                             member_content = content\<rparr>,
                            pos + 46 + nlen + xlen + clen))))"

fun read_members :: "bool \<Rightarrow> byte list \<Rightarrow> nat \<Rightarrow> nat \<Rightarrow> read_error + member list" where
  "read_members verify buf 0 pos = Inr []"
| "read_members verify buf (Suc n) pos =
     (case read_member verify buf pos of
        Inl e \<Rightarrow> Inl e
      | Inr (m, pos') \<Rightarrow>
          (case read_members verify buf n pos' of
             Inl e \<Rightarrow> Inl e
           | Inr ms \<Rightarrow> Inr (m # ms)))"

definition read_archive :: "bool \<Rightarrow> byte list \<Rightarrow> read_error + member list" where
  "read_archive verify buf =
     (if length buf < 22 then Inl NoTrailer
      else
        (let t = length buf - 22 in
         if u32 buf t = END_OF_CENTRAL_DIR_SIG \<and> u16 buf (t + 20) = 0 then
           (if u16 buf (t + 4) = 0 \<and> u16 buf (t + 6) = 0 \<and> u16 buf (t + 8) = u16 buf (t + 10)
            then read_members verify buf (u16 buf (t + 10)) (u32 buf (t + 16))
            else Inl MultiVolume)
         else Inl NoTrailer))"

section \<open>The layout of the archive\<close>

text \<open>The three records as byte strings, field after field.\<close>

definition lh_bytes :: "byte list \<Rightarrow> nat \<Rightarrow> byte list" where
  "lh_bytes fnb n =
     le32 LOCAL_FILE_HEADER_SIG @ le16 20 @ le16 0 @ le16 0 @ le16 0 @ le16 0 @
     le32 0 @ le32 n @ le32 n @ le16 (length fnb) @ le16 0 @ fnb"

definition ch_bytes :: "cd_entry \<Rightarrow> byte list" where
  "ch_bytes e =
     le32 CENTRAL_DIR_HEADER_SIG @ le16 20 @ le16 20 @ le16 0 @ le16 0 @ le16 0 @ le16 0 @
     le32 0 @ le32 (cd_size e) @ le32 (cd_size e) @ le16 (length (cd_filenameBytes e)) @
     le16 0 @ le16 0 @ le16 0 @ le16 0 @ le32 0 @ le32 (cd_offset e) @ cd_filenameBytes e"

definition er_bytes :: "nat \<Rightarrow> nat \<Rightarrow> nat \<Rightarrow> byte list" where
  "er_bytes c s off =
     le32 END_OF_CENTRAL_DIR_SIG @ le16 0 @ le16 0 @ le16 c @ le16 c @ le32 s @ le32 off @
     le16 0"

text \<open>An entry is what the first loop computes from one image: the encoded file name and
  the decoded content.\<close>

type_synonym entry = "byte list \<times> byte list"

definition entry_of :: "image \<Rightarrow> error + entry" where
  "entry_of img =
     (case atob (data img) of
        Inl e \<Rightarrow> Inl e
      | Inr binaryString \<Rightarrow>
          Inr (TextEncoder_encode (filename img), binary_bytes binaryString))"

fun entries_of :: "image list \<Rightarrow> error + entry list" where
  "entries_of [] = Inr []"
| "entries_of (img # imgs) =
     (case entry_of img of
        Inl e \<Rightarrow> Inl e
      | Inr en \<Rightarrow> (case entries_of imgs of Inl e \<Rightarrow> Inl e | Inr ens \<Rightarrow> Inr (en # ens)))"

definition local_size :: "entry \<Rightarrow> nat" where
  "local_size en = 30 + length (fst en) + length (snd en)"

definition local_parts :: "entry \<Rightarrow> byte list list" where
  "local_parts en = [lh_bytes (fst en) (length (snd en)), snd en]"

fun cds :: "nat \<Rightarrow> entry list \<Rightarrow> cd_entry list" where
  "cds k [] = []"
| "cds k (en # ens) =
     \<lparr>cd_offset = k, cd_filenameBytes = fst en, cd_size = length (snd en)\<rparr> #
     cds (k + local_size en) ens"

definition index_size :: "cd_entry list \<Rightarrow> nat" where
  "index_size cd = sum_list (map (\<lambda>e. 46 + length (cd_filenameBytes e)) cd)"

definition archive :: "entry list \<Rightarrow> byte list" where
  "archive ens =
     concat (concat (map local_parts ens)) @
     concat (map ch_bytes (cds 0 ens)) @
     er_bytes (length ens) (index_size (cds 0 ens)) (sum_list (map local_size ens))"

text \<open>The position of the \<open>i\<close>-th index record in the buffer: the index region starts at
  \<open>centralDirOffset\<close> and the records before it have 46 bytes and their names.\<close>

definition index_pos :: "nat \<Rightarrow> cd_entry list \<Rightarrow> nat \<Rightarrow> nat" where
  "index_pos centralDirOffset cd i = centralDirOffset + index_size (take i cd)"

text \<open>The bytes of one entry in the entries region: local header, then content.\<close>

definition local_bytes :: "entry \<Rightarrow> byte list" where
  "local_bytes en = lh_bytes (fst en) (length (snd en)) @ snd en"

section \<open>Example inputs\<close>

text \<open>A string literal as a JavaScript string: one code unit per character.\<close>

definition js :: "string \<Rightarrow> jsstring" where
  "js s = map of_char s"

text \<open>The two entries \<open>("x.txt", "hello")\<close> and \<open>("y.txt", "world!")\<close> as the
  gateway delivers them, what the first loop makes of them, and the 205 bytes of their
  archive.\<close>

definition example_images :: "image list" where
  "example_images =
     [\<lparr>filename = js ''x.txt'', data = js ''aGVsbG8=''\<rparr>,
      \<lparr>filename = js ''y.txt'', data = js ''d29ybGQh''\<rparr>]"

definition example_entries :: "entry list" where
  "example_entries =
     [([0x78, 0x2E, 0x74, 0x78, 0x74], [0x68, 0x65, 0x6C, 0x6C, 0x6F]),
      ([0x79, 0x2E, 0x74, 0x78, 0x74], [0x77, 0x6F, 0x72, 0x6C, 0x64, 0x21])]"

definition example_archive :: "byte list" where
  "example_archive =
     [80, 75, 3, 4, 20, 0, 0, 0, 0, 0, 0, 0, 0, 0, 0, 0, 0, 0, 5, 0, 0, 0, 5, 0, 0, 0, 5, 0, 0, 0,
      120, 46, 116, 120, 116, 104, 101, 108, 108, 111,
      80, 75, 3, 4, 20, 0, 0, 0, 0, 0, 0, 0, 0, 0, 0, 0, 0, 0, 6, 0, 0, 0, 6, 0, 0, 0, 5, 0, 0, 0,
      121, 46, 116, 120, 116, 119, 111, 114, 108, 100, 33,
      80, 75, 1, 2, 20, 0, 20, 0, 0, 0, 0, 0, 0, 0, 0, 0, 0, 0, 0, 0, 5, 0, 0, 0, 5, 0, 0, 0,
      5, 0, 0, 0, 0, 0, 0, 0, 0, 0, 0, 0, 0, 0, 0, 0, 0, 0, 120, 46, 116, 120, 116,
      80, 75, 1, 2, 20, 0, 20, 0, 0, 0, 0, 0, 0, 0, 0, 0, 0, 0, 0, 0, 6, 0, 0, 0, 6, 0, 0, 0,
      5, 0, 0, 0, 0, 0, 0, 0, 0, 0, 0, 0, 0, 0, 40, 0, 0, 0, 121, 46, 116, 120, 116,
      80, 75, 5, 6, 0, 0, 0, 0, 2, 0, 2, 0, 102, 0, 0, 0, 81, 0, 0, 0, 0, 0]"

text \<open>An archive beyond 4 GiB: 23 entries of 192 MiB of zero bytes each, whose base64
  text is \<open>2 ^ 28\<close> times \<open>A\<close>.\<close>

definition chunk_image :: image where
  "chunk_image = \<lparr>filename = js ''a'', data = replicate 268435456 0x41\<rparr>"

definition chunk_entry :: entry where
  "chunk_entry = ([0x61], replicate 201326592 0)"

definition big_images :: "image list" where
  "big_images = replicate 23 chunk_image"

definition big_entries :: "entry list" where
  "big_entries = replicate 23 chunk_entry"

definition big_buffer :: "byte list" where
  "big_buffer = blob_bytes (projr (createZipFromBase64Images big_images))"

text \<open>65536 empty entries with empty names.\<close>

definition many_images :: "image list" where
  "many_images = replicate 65536 \<lparr>filename = [], data = []\<rparr>"

definition many_buffer :: "byte list" where
  "many_buffer = blob_bytes (projr (createZipFromBase64Images many_images))"

text \<open>The example with blanks inside the base64 text and without padding; a name that
  is an unpaired surrogate; a payload of five base64 characters, which is not valid.\<close>

definition spaced_images :: "image list" where
  "spaced_images =
     [\<lparr>filename = js ''x.txt'', data = js ''aGVs bG8''\<rparr>,
      \<lparr>filename = js ''y.txt'', data = js ''d29y    bGQh''\<rparr>]"

definition surrogate_images :: "image list" where
  "surrogate_images = [\<lparr>filename = [0xD800], data = []\<rparr>]"

definition broken_images :: "image list" where
  "broken_images =
     [\<lparr>filename = js ''x.txt'', data = js ''aGVsbG8=''\<rparr>,
      \<lparr>filename = js ''y.txt'', data = js ''d29yb''\<rparr>]"

text \<open>An image with an empty payload whose name is 65537 times \<open>a\<close>.\<close>

definition long_name_images :: "image list" where
  "long_name_images = [\<lparr>filename = replicate 65537 0x61, data = []\<rparr>]"

definition long_name_buffer :: "byte list" where
  "long_name_buffer = blob_bytes (projr (createZipFromBase64Images long_name_images))"

text \<open>Three input files.\<close>

definition example_files :: "input_file list" where
  "example_files =
     [\<lparr>file_name = js ''a.png'', file_payload = []\<rparr>,
      \<lparr>file_name = js ''b.png'', file_payload = []\<rparr>,
      \<lparr>file_name = js ''c.png'', file_payload = []\<rparr>]"



definition failing_gateway :: gateway where
  "failing_gateway i f = Inl (GatewayError (js ''Conversion failed''))"



section \<open>The records written by the encoder\<close>

lemma length_le16 [simp]: "length (le16 v) = 2"
  by (simp add: le16_def Let_def)

lemma length_le32 [simp]: "length (le32 v) = 4"
  by (simp add: le32_def Let_def)

lemma le16_0: "le16 0 = [0, 0]"
  by (simp add: le16_def)

lemma le32_0: "le32 0 = [0, 0, 0, 0]"
  by (simp add: le32_def)

lemma zeros22:
  "replicate 22 (0::byte) =
     le32 0 @ le16 0 @ le16 0 @ le16 0 @ le16 0 @ le32 0 @ le32 0 @ le16 0"
  unfolding le16_0 le32_0 by (simp add: numeral_eq_Suc)

lemma zeros30:
  "replicate (30 + n) (0::byte) =
     le32 0 @ le16 0 @ le16 0 @ le16 0 @ le16 0 @ le16 0 @ le32 0 @ le32 0 @ le32 0 @
     le16 0 @ le16 0 @ replicate n 0"
  unfolding le16_0 le32_0 by (simp add: numeral_eq_Suc replicate_add)

lemma zeros46:
  "replicate (46 + n) (0::byte) =
     le32 0 @ le16 0 @ le16 0 @ le16 0 @ le16 0 @ le16 0 @ le16 0 @ le32 0 @ le32 0 @
     le32 0 @ le16 0 @ le16 0 @ le16 0 @ le16 0 @ le16 0 @ le32 0 @ le32 0 @ replicate n 0"
  unfolding le16_0 le32_0 by (simp add: numeral_eq_Suc replicate_add)

text \<open>Every write of the three blocks is in range, and the blocks fill their buffers.\<close>

lemma endRecord_eq: "endRecord c s off = Inr (er_bytes c s off)"
  unfolding endRecord_def zeros22 er_bytes_def
  by (simp add: setUint16_def setUint32_def set_at_def)

lemma localHeader_eq: "localHeader fnb n = Inr (lh_bytes fnb n)"
  unfolding localHeader_def zeros30 lh_bytes_def
  by (simp add: setUint16_def setUint32_def set_at_def)

lemma centralHeader_eq: "centralHeader e = Inr (ch_bytes e)"
  unfolding centralHeader_def zeros46 ch_bytes_def
  by (simp add: setUint16_def setUint32_def set_at_def)

lemma length_lh_bytes [simp]: "length (lh_bytes fnb n) = 30 + length fnb"
  by (simp add: lh_bytes_def)

lemma length_ch_bytes [simp]: "length (ch_bytes e) = 46 + length (cd_filenameBytes e)"
  by (simp add: ch_bytes_def)

lemma length_er_bytes [simp]: "length (er_bytes c s off) = 22"
  by (simp add: er_bytes_def)

section \<open>The encoder computes the layout\<close>

lemma entries_loop_fail:
  "entries_of images = Inl e \<Longrightarrow> entries_loop images st = Inl e"
proof (induction images arbitrary: st)
  case Nil
  then show ?case by simp
next
  case (Cons img imgs)
  obtain zp off cd where st: "st = (zp, off, cd)" by (cases st)
  from Cons show ?case unfolding st
    by (auto simp: entry_of_def localHeader_eq Let_def split: sum.splits)
qed

lemma entries_loop_ok:
  "entries_of images = Inr ens \<Longrightarrow>
   entries_loop images (zp, off, cd) =
     Inr (zp @ concat (map local_parts ens), off + sum_list (map local_size ens),
          cd @ cds off ens)"
proof (induction images arbitrary: zp off cd ens)
  case Nil
  then show ?case by simp
next
  case (Cons img imgs)
  then show ?case
    by (auto simp: entry_of_def localHeader_eq Let_def local_parts_def local_size_def
        add.assoc split: sum.splits)
qed

lemma central_loop_eq:
  "central_loop cd (zp, off) = Inr (zp @ map ch_bytes cd, off + index_size cd)"
  by (induction cd arbitrary: zp off) (simp_all add: centralHeader_eq index_size_def)

lemma length_cds [simp]: "length (cds k ens) = length ens"
  by (induction ens arbitrary: k) simp_all

lemma createZip_ok:
  "entries_of images = Inr ens \<Longrightarrow>
   createZipFromBase64Images images =
     Inr \<lparr>blob_bytes = archive ens, blob_type = ''application/zip''\<rparr>"
  by (simp add: createZipFromBase64Images_def
      entries_loop_ok [where zp = "[]" and off = 0 and cd = "[]", simplified]
      central_loop_eq endRecord_eq archive_def)

lemma createZip_fail:
  "entries_of images = Inl e \<Longrightarrow> createZipFromBase64Images images = Inl e"
  by (simp add: createZipFromBase64Images_def entries_loop_fail)

section \<open>Reading the fields back\<close>

lemma split_bytes4:
  fixes w :: nat
  shows "w mod 256 + 256 * (w div 256 mod 256) + 65536 * (w div 65536 mod 256) +
         16777216 * (w div 16777216) = w"
proof -
  define q1 where "q1 = w div 256"
  define q2 where "q2 = w div 65536"
  define q3 where "q3 = w div 16777216"
  define a where "a = w mod 256"
  define b where "b = q1 mod 256"
  define c where "c = q2 mod 256"
  have e1: "q2 = q1 div 256" using div_mult2_eq[of w 256 256] by (simp add: q1_def q2_def)
  have e2: "q3 = q2 div 256" using div_mult2_eq[of w 65536 256] by (simp add: q2_def q3_def)
  have s1: "w = a + 256 * q1" by (simp add: a_def q1_def)
  have s2: "q1 = b + 256 * q2" by (simp add: b_def e1)
  have s3: "q2 = c + 256 * q3" by (simp add: c_def e2)
  have "a + 256 * b + 65536 * c + 16777216 * q3 = w"
    using s1 s2 s3 by linarith
  then show ?thesis by (simp add: a_def b_def c_def q1_def q2_def q3_def)
qed

lemma u16_le16: "u16 (le16 v @ rest) 0 = v mod 2 ^ 16"
proof -
  define w where "w = v mod 65536"
  have "w < 256 * 256" by (simp add: w_def)
  then have a: "w div 256 < 256" by (rule less_mult_imp_div_less)
  have "w mod 256 + 256 * (w div 256) = w" by simp
  then show ?thesis
    using a by (simp add: u16_def le16_def Let_def unat_of_nat w_def [symmetric])
qed

lemma u32_le32: "u32 (le32 v @ rest) 0 = v mod 2 ^ 32"
proof -
  define w where "w = v mod 4294967296"
  have "w < 256 * 16777216" by (simp add: w_def)
  then have a: "w div 16777216 < 256" by (rule less_mult_imp_div_less)
  show ?thesis
    using a split_bytes4 [of w]
    by (simp add: u32_def le32_def Let_def unat_of_nat w_def [symmetric])
qed

lemma u16_append_right: "length xs \<le> p \<Longrightarrow> u16 (xs @ ys) p = u16 ys (p - length xs)"
  by (simp add: u16_def nth_append Suc_diff_le)

lemma u32_append_right: "length xs \<le> p \<Longrightarrow> u32 (xs @ ys) p = u32 ys (p - length xs)"
  by (simp add: u32_def nth_append Suc_diff_le)

lemma u32_lh_crc: "u32 (lh_bytes fnb n @ rest) 14 = 0"
  by (simp add: lh_bytes_def u32_append_right u32_le32)

lemma u32_ch_crc: "u32 (ch_bytes e @ rest) 16 = 0"
  by (simp add: ch_bytes_def u32_append_right u32_le32)

lemma u32_ch_offset: "u32 (ch_bytes e @ rest) 42 = cd_offset e mod 2 ^ 32"
  by (simp add: ch_bytes_def u32_append_right u32_le32)

lemma u16_er_count1: "u16 (er_bytes c s off) 8 = c mod 2 ^ 16"
  using u16_le16 [of c "le16 c @ le32 s @ le32 off @ le16 0"]
  by (simp add: er_bytes_def u16_append_right)

lemma u16_er_count2: "u16 (er_bytes c s off) 10 = c mod 2 ^ 16"
  using u16_le16 [of c "le32 s @ le32 off @ le16 0"]
  by (simp add: er_bytes_def u16_append_right)

lemma u32_er_size: "u32 (er_bytes c s off) 12 = s mod 2 ^ 32"
  by (simp add: er_bytes_def u32_append_right u32_le32)

lemma u32_er_offset: "u32 (er_bytes c s off) 16 = off mod 2 ^ 32"
  by (simp add: er_bytes_def u32_append_right u32_le32)

section \<open>Where the records lie in the buffer\<close>

lemma concat_map_split:
  "i < length xs \<Longrightarrow>
   concat (map f xs) = concat (map f (take i xs)) @ f (xs ! i) @ concat (map f (drop (Suc i) xs))"
proof -
  assume "i < length xs"
  then have "xs = take i xs @ xs ! i # drop (Suc i) xs" by (rule id_take_nth_drop)
  then have "concat (map f xs) = concat (map f (take i xs @ xs ! i # drop (Suc i) xs))" by simp
  then show ?thesis by simp
qed

lemma concat_local_parts: "concat (concat (map local_parts ens)) = concat (map local_bytes ens)"
  by (induction ens) (simp_all add: local_parts_def local_bytes_def)

lemma length_local_bytes [simp]: "length (local_bytes en) = local_size en"
  by (simp add: local_bytes_def local_size_def)

lemma length_entries_region:
  "length (concat (map local_bytes ens)) = sum_list (map local_size ens)"
  by (induction ens) simp_all

lemma length_index_region: "length (concat (map ch_bytes cd)) = index_size cd"
  by (induction cd) (simp_all add: index_size_def)

lemma cds_nth:
  "i < length ens \<Longrightarrow>
   cds k ens ! i =
     \<lparr>cd_offset = k + sum_list (map local_size (take i ens)),
      cd_filenameBytes = fst (ens ! i), cd_size = length (snd (ens ! i))\<rparr>"
proof (induction ens arbitrary: k i)
  case Nil
  then show ?case by simp
next
  case (Cons en ens)
  then show ?case by (cases i) (simp_all add: add.assoc)
qed

lemma length_entries_of: "entries_of images = Inr ens \<Longrightarrow> length ens = length images"
  by (induction images arbitrary: ens) (auto split: sum.splits)

lemma entries_of_nth:
  "entries_of images = Inr ens \<Longrightarrow> i < length images \<Longrightarrow> entry_of (images ! i) = Inr (ens ! i)"
proof (induction images arbitrary: ens i)
  case Nil
  then show ?case by simp
next
  case (Cons img imgs)
  then show ?case by (cases i) (auto split: sum.splits)
qed

text \<open>What the state after the first loop and a returned blob say about the entries.\<close>

lemma encoder_states:
  assumes "entries_loop images ([], 0, []) = Inr (zipParts, offset, centralDirectory)"
  obtains ens where "entries_of images = Inr ens"
    and "zipParts = concat (map local_parts ens)"
    and "offset = sum_list (map local_size ens)"
    and "centralDirectory = cds 0 ens"
    and "length ens = length images"
    and "createZipFromBase64Images images =
           Inr \<lparr>blob_bytes = archive ens, blob_type = ''application/zip''\<rparr>"
proof (cases "entries_of images")
  case (Inl e)
  with assms entries_loop_fail [of images e] show ?thesis by simp
next
  case (Inr ens)
  from entries_loop_ok [OF Inr, of "[]" 0 "[]"] assms
  have "zipParts = concat (map local_parts ens)" "offset = sum_list (map local_size ens)"
    "centralDirectory = cds 0 ens" by simp_all
  with Inr length_entries_of [OF Inr] createZip_ok [OF Inr] that show ?thesis by blast
qed

text \<open>The buffer around the local header and around the index record of entry \<open>i\<close>.\<close>

lemma archive_at_local:
  assumes "i < length ens"
  shows "\<exists>pre post. archive ens = pre @ local_bytes (ens ! i) @ post \<and>
           length pre = cd_offset (cds 0 ens ! i)"
proof -
  let ?pre = "concat (map local_bytes (take i ens))"
  let ?post = "concat (map local_bytes (drop (Suc i) ens)) @ concat (map ch_bytes (cds 0 ens)) @
     er_bytes (length ens) (index_size (cds 0 ens)) (sum_list (map local_size ens))"
  have "archive ens = ?pre @ local_bytes (ens ! i) @ ?post"
    by (simp add: archive_def concat_local_parts concat_map_split [OF assms, of local_bytes])
  moreover have "length ?pre = cd_offset (cds 0 ens ! i)"
    by (simp add: cds_nth [OF assms] length_entries_region)
  ultimately show ?thesis by blast
qed

lemma archive_at_index:
  assumes "i < length ens"
  shows "\<exists>pre post. archive ens = pre @ ch_bytes (cds 0 ens ! i) @ post \<and>
           length pre = index_pos (sum_list (map local_size ens)) (cds 0 ens) i"
proof -
  let ?cd = "cds 0 ens"
  let ?pre = "concat (map local_bytes ens) @ concat (map ch_bytes (take i ?cd))"
  let ?post = "concat (map ch_bytes (drop (Suc i) ?cd)) @
     er_bytes (length ens) (index_size ?cd) (sum_list (map local_size ens))"
  have i: "i < length ?cd" using assms by simp
  have "archive ens = ?pre @ ch_bytes (?cd ! i) @ ?post"
    by (simp add: archive_def concat_local_parts concat_map_split [OF i, of ch_bytes])
  moreover have "length ?pre = index_pos (sum_list (map local_size ens)) ?cd i"
    by (simp add: index_pos_def length_entries_region length_index_region)
  ultimately show ?thesis by blast
qed

lemma archive_at_trailer:
  "\<exists>pre. archive ens =
       pre @ er_bytes (length ens) (index_size (cds 0 ens)) (sum_list (map local_size ens)) \<and>
     length pre = sum_list (map local_size ens) + index_size (cds 0 ens)"
proof -
  let ?pre = "concat (map local_bytes ens) @ concat (map ch_bytes (cds 0 ens))"
  have "archive ens =
      ?pre @ er_bytes (length ens) (index_size (cds 0 ens)) (sum_list (map local_size ens))"
    by (simp add: archive_def concat_local_parts)
  moreover have "length ?pre = sum_list (map local_size ens) + index_size (cds 0 ens)"
    by (simp add: length_entries_region length_index_region)
  ultimately show ?thesis by blast
qed

lemma length_archive:
  "length (archive ens) = sum_list (map local_size ens) + index_size (cds 0 ens) + 22"
  using archive_at_trailer [of ens] by auto

lemma getUint32_at:
  "length pre = p \<Longrightarrow> k + 4 \<le> length body \<Longrightarrow>
   getUint32 (pre @ body @ post) (p + k) = Some (u32 (body @ post) k)"
  by (auto simp: getUint32_def u32_append_right)

lemma getUint16_at:
  "length pre = p \<Longrightarrow> k + 2 \<le> length body \<Longrightarrow>
   getUint16 (pre @ body @ post) (p + k) = Some (u16 (body @ post) k)"
  by (auto simp: getUint16_def u16_append_right)

lemma take_local_parts:
  "take (2 * i) (concat (map local_parts ens)) = concat (map local_parts (take i ens))"
proof (induction ens arbitrary: i)
  case Nil
  then show ?case by simp
next
  case (Cons en ens)
  then show ?case by (cases i) (simp_all add: local_parts_def)
qed

lemma nth_local_parts:
  "i < length ens \<Longrightarrow>
   concat (map local_parts ens) ! (2 * i) = lh_bytes (fst (ens ! i)) (length (snd (ens ! i))) \<and>
   concat (map local_parts ens) ! (2 * i + 1) = snd (ens ! i)"
proof (induction ens arbitrary: i)
  case Nil
  then show ?case by simp
next
  case (Cons en ens)
  then show ?case by (cases i) (simp_all add: local_parts_def)
qed

lemma sum_take_Suc:
  "k < length ens \<Longrightarrow>
   sum_list (map local_size (take (Suc k) ens)) =
     sum_list (map local_size (take k ens)) + local_size (ens ! k)"
  by (simp add: take_Suc_conv_app_nth)

lemma sum_take_strict:
  "i < j \<Longrightarrow> j \<le> length ens \<Longrightarrow>
   sum_list (map local_size (take i ens)) + 30 \<le> sum_list (map local_size (take j ens))"
proof (induction j)
  case 0
  then show ?case by simp
next
  case (Suc j)
  have k: "j < length ens" using Suc.prems by simp
  have step: "sum_list (map local_size (take j ens)) + 30 \<le>
      sum_list (map local_size (take (Suc j) ens))"
    by (simp add: sum_take_Suc [OF k] local_size_def)
  show ?case
  proof (cases "i = j")
    case True
    with step show ?thesis by simp
  next
    case False
    with Suc.prems have "i < j" "j \<le> length ens" by simp_all
    with Suc.IH step show ?thesis by linarith
  qed
qed

section \<open>The example archive\<close>

lemma atob_hello: "atob (js ''aGVsbG8='') = Inr [0x68, 0x65, 0x6C, 0x6C, 0x6F]"
  by (simp add: js_def atob_def is_ascii_whitespace_def strip_padding_def b64_value_def)

lemma atob_world: "atob (js ''d29ybGQh'') = Inr [0x77, 0x6F, 0x72, 0x6C, 0x64, 0x21]"
  by (simp add: js_def atob_def is_ascii_whitespace_def strip_padding_def b64_value_def)

lemma enc_x: "TextEncoder_encode (js ''x.txt'') = [0x78, 0x2E, 0x74, 0x78, 0x74]"
  by (simp add: js_def TextEncoder_encode_def utf8_bytes_def is_lead_surrogate_def is_trail_surrogate_def)

lemma enc_y: "TextEncoder_encode (js ''y.txt'') = [0x79, 0x2E, 0x74, 0x78, 0x74]"
  by (simp add: js_def TextEncoder_encode_def utf8_bytes_def is_lead_surrogate_def is_trail_surrogate_def)

lemma example_entries_of: "entries_of example_images = Inr example_entries"
  by (simp add: example_images_def example_entries_def entry_of_def atob_hello atob_world enc_x enc_y binary_bytes_def)

lemma le16_values: "le16 0 = [0, 0]" "le16 2 = [2, 0]" "le16 5 = [5, 0]" "le16 20 = [20, 0]"
  by (simp_all add: le16_def)

lemma le32_values:
  "le32 0 = [0, 0, 0, 0]" "le32 5 = [5, 0, 0, 0]" "le32 6 = [6, 0, 0, 0]"
  "le32 40 = [40, 0, 0, 0]" "le32 81 = [81, 0, 0, 0]" "le32 102 = [102, 0, 0, 0]"
  "le32 LOCAL_FILE_HEADER_SIG = [80, 75, 3, 4]"
  "le32 CENTRAL_DIR_HEADER_SIG = [80, 75, 1, 2]"
  "le32 END_OF_CENTRAL_DIR_SIG = [80, 75, 5, 6]"
  by (simp_all add: le32_def LOCAL_FILE_HEADER_SIG_def CENTRAL_DIR_HEADER_SIG_def
      END_OF_CENTRAL_DIR_SIG_def)

lemma small_nats:
  "Suc (Suc 0) = 2" "Suc (Suc (Suc (Suc (Suc 0)))) = 5"
  "Suc (Suc (Suc (Suc (Suc (Suc 0))))) = 6"
  by simp_all

lemma example_archive_eq: "archive example_entries = example_archive"
  by (simp add: small_nats archive_def example_entries_def example_archive_def local_parts_def
      local_size_def index_size_def lh_bytes_def ch_bytes_def er_bytes_def
      le16_values le32_values)

lemma example_zip:
  "createZipFromBase64Images example_images =
     Inr \<lparr>blob_bytes = example_archive, blob_type = ''application/zip''\<rparr>"
  using createZip_ok [OF example_entries_of] by (simp add: example_archive_eq)

lemma crc_hello: "crc32 [0x68, 0x65, 0x6C, 0x6C, 0x6F] = 0x3610A686"
  by (simp add: crc32_def crc32_byte_def crc32_shift_def)

lemma read_members_numeral:
  "read_members verify buf (numeral k) pos =
     (case read_member verify buf pos of
        Inl e \<Rightarrow> Inl e
      | Inr (m, pos') \<Rightarrow>
          (case read_members verify buf (pred_numeral k) pos' of
             Inl e \<Rightarrow> Inl e
           | Inr ms \<Rightarrow> Inr (m # ms)))"
  by (simp add: numeral_eq_Suc)

lemma read_lenient: "read_archive False example_archive =
  Inr [\<lparr>member_name = [0x78, 0x2E, 0x74, 0x78, 0x74], member_method = 0, member_content = [0x68, 0x65, 0x6C, 0x6C, 0x6F]\<rparr>,
       \<lparr>member_name = [0x79, 0x2E, 0x74, 0x78, 0x74], member_method = 0, member_content = [0x77, 0x6F, 0x72, 0x6C, 0x64, 0x21]\<rparr>]"
  by (simp add: read_archive_def example_archive_def u16_def u32_def read_member_def
      END_OF_CENTRAL_DIR_SIG_def CENTRAL_DIR_HEADER_SIG_def LOCAL_FILE_HEADER_SIG_def read_members_numeral)

lemma read_strict: "read_archive True example_archive = Inl BadChecksum"
  by (simp add: read_archive_def example_archive_def u16_def u32_def read_member_def
      END_OF_CENTRAL_DIR_SIG_def CENTRAL_DIR_HEADER_SIG_def LOCAL_FILE_HEADER_SIG_def read_members_numeral crc_hello)

lemma example_loop:
  "entries_loop example_images ([], 0, []) =
     Inr (concat (map local_parts example_entries), 81, cds 0 example_entries)"
  using entries_loop_ok [OF example_entries_of, of "[]" 0 "[]"]
  by (simp add: example_entries_def local_size_def)

lemma b64_values_replicate_A: "b64_values (replicate n 0x41) = Some (replicate n 0)"
  by (induction n) (simp_all add: b64_value_def)

lemma b64_groups_zeros: "b64_groups (replicate (4 * k) 0) = replicate (3 * k) 0"
proof (induction k)
  case 0
  then show ?case by simp
next
  case (Suc k)
  have h: "4 * Suc k = Suc (Suc (Suc (Suc (4 * k))))" "3 * Suc k = Suc (Suc (Suc (3 * k)))"
    by simp_all
  show ?case unfolding h using Suc by simp
qed

lemma atob_replicate_A: "atob (replicate (4 * k) 0x41) = Inr (replicate (3 * k) 0)"
proof (cases "k = 0")
  case True
  then show ?thesis by (simp add: atob_def strip_padding_def)
next
  case False
  have f: "filter (\<lambda>c. \<not> is_ascii_whitespace c) (replicate (4 * k) 0x41) = replicate (4 * k) 0x41"
    by (simp add: is_ascii_whitespace_def)
  have s: "strip_padding (replicate (4 * k) 0x41) = replicate (4 * k) 0x41"
    using False by (simp add: strip_padding_def)
  show ?thesis
    unfolding atob_def f s
    by (simp add: b64_values_replicate_A b64_groups_zeros)
qed

lemma atob_empty: "atob [] = Inr []"
  by (simp add: atob_def strip_padding_def)

lemma enc_a: "TextEncoder_encode (js ''a'') = [0x61]"
  by (simp add: js_def TextEncoder_encode_def utf8_bytes_def is_lead_surrogate_def
      is_trail_surrogate_def)

lemma replicate4: "replicate 4 x = [x, x, x, x]"
  by (simp add: numeral_eq_Suc)

lemma entries_of_replicate_any:
  "entry_of img = Inr en \<Longrightarrow> entries_of (replicate n img) = Inr (replicate n en)"
  by (induction n) simp_all

lemma entry_of_chunk: "entry_of chunk_image = Inr chunk_entry"
  using atob_replicate_A [of 67108864]
  by (simp add: chunk_image_def chunk_entry_def entry_of_def enc_a binary_bytes_def)

lemma big_entries_of: "entries_of big_images = Inr big_entries"
  unfolding big_images_def big_entries_def
  by (rule entries_of_replicate_any [OF entry_of_chunk])

lemma big_zip:
  "createZipFromBase64Images big_images =
     Inr \<lparr>blob_bytes = archive big_entries, blob_type = ''application/zip''\<rparr>"
  by (rule createZip_ok [OF big_entries_of])

lemma local_size_chunk: "local_size chunk_entry = 201326623"
  by (simp add: local_size_def chunk_entry_def)

lemma big_total: "sum_list (map local_size big_entries) = 4630512329"
  by (simp add: big_entries_def sum_list_replicate local_size_chunk)

lemma big_loop:
  "entries_loop big_images ([], 0, []) =
     Inr (concat (map local_parts big_entries), 4630512329, cds 0 big_entries)"
  using entries_loop_ok [OF big_entries_of, of "[]" 0 "[]"] by (simp add: big_total)

lemma big_last_offset: "cd_offset (cds 0 big_entries ! 22) = 4429185706"
proof -
  have i: "22 < length big_entries" by (simp add: big_entries_def)
  have "sum_list (map local_size (take 22 big_entries)) = 4429185706"
    by (simp add: big_entries_def sum_list_replicate local_size_chunk)
  then show ?thesis by (simp add: cds_nth [OF i])
qed

lemma big_offset_field:
  "getUint32 (archive big_entries) (index_pos 4630512329 (cds 0 big_entries) 22 + 42) =
     Some 134218410"
proof -
  have i: "22 < length big_entries" by (simp add: big_entries_def)
  from archive_at_index [OF i] obtain pre post where
    x: "archive big_entries = pre @ ch_bytes (cds 0 big_entries ! 22) @ post"
       "length pre = index_pos 4630512329 (cds 0 big_entries) 22"
    unfolding big_total by blast
  show ?thesis
    unfolding x(1) using getUint32_at [OF x(2), of 42 "ch_bytes (cds 0 big_entries ! 22)" post]
    by (simp add: u32_ch_offset big_last_offset)
qed

lemma big_buffer_zeros: "take 4 (drop 134218410 (archive big_entries)) = [0, 0, 0, 0]"
proof -
  have r: "big_entries = chunk_entry # replicate 22 chunk_entry"
    unfolding big_entries_def by (simp add: numeral_eq_Suc)
  obtain rest where "archive big_entries =
      lh_bytes [0x61] 201326592 @ replicate 201326592 0 @ rest"
    unfolding r by (simp add: archive_def chunk_entry_def local_parts_def)
  then show ?thesis by (simp add: replicate4)
qed

lemma last_local_parts:
  "ens \<noteq> [] \<Longrightarrow> last (concat (map local_parts ens)) = snd (last ens)"
proof -
  assume "ens \<noteq> []"
  then have e: "butlast ens @ [last ens] = ens" by simp
  have "last (concat (map local_parts (butlast ens @ [last ens]))) = snd (last ens)"
    by (simp add: local_parts_def)
  then show ?thesis unfolding e .
qed

lemma entries_of_last:
  assumes "entries_of images = Inr ens" and "images \<noteq> []"
  shows "entry_of (last images) = Inr (last ens)"
proof -
  have n: "length ens = length images" by (rule length_entries_of [OF assms(1)])
  with assms(2) have e: "ens \<noteq> []" by auto
  have i: "length images - 1 < length images" using assms(2) by simp
  from entries_of_nth [OF assms(1) i] show ?thesis
    by (simp add: last_conv_nth assms(2) e n)
qed

lemma archive_index_region:
  "take (index_size (cds 0 ens)) (drop (sum_list (map local_size ens)) (archive ens)) =
     concat (map ch_bytes (cds 0 ens))"
  by (simp add: archive_def concat_local_parts length_entries_region length_index_region)

lemma entries_of_replicate:
  "entries_of (replicate n \<lparr>filename = [], data = []\<rparr>) = Inr (replicate n ([], []))"
  by (induction n)
     (simp_all add: entry_of_def atob_empty TextEncoder_encode_def binary_bytes_def)

lemma many_zip:
  "createZipFromBase64Images many_images =
     Inr \<lparr>blob_bytes = archive (replicate 65536 ([], [])), blob_type = ''application/zip''\<rparr>"
  unfolding many_images_def by (rule createZip_ok [OF entries_of_replicate])

lemma atob_spaced:
  "atob (js ''aGVs bG8'') = Inr [0x68, 0x65, 0x6C, 0x6C, 0x6F]"
  "atob (js ''d29y    bGQh'') = Inr [0x77, 0x6F, 0x72, 0x6C, 0x64, 0x21]"
  by (simp_all add: js_def atob_def is_ascii_whitespace_def strip_padding_def b64_value_def)

lemma spaced_entries_of: "entries_of spaced_images = Inr example_entries"
  by (simp add: spaced_images_def example_entries_def entry_of_def enc_x enc_y binary_bytes_def
      atob_spaced)

lemma atob_error: "atob s = Inl e \<Longrightarrow> e = InvalidCharacterError"
  by (auto simp: atob_def Let_def split: if_splits option.splits)

lemma entries_of_error: "entries_of images = Inl e \<Longrightarrow> e = InvalidCharacterError"
proof (induction images)
  case Nil
  then show ?case by simp
next
  case (Cons img imgs)
  then show ?case
    by (auto simp: entry_of_def dest: atob_error split: sum.splits)
qed

lemma entries_of_fails_iff:
  "isl (entries_of images) \<longleftrightarrow> (\<exists>img \<in> set images. isl (atob (data img)))"
  by (induction images) (auto simp: entry_of_def split: sum.splits)

lemma length_binary_bytes [simp]: "length (binary_bytes s) = length s"
  by (simp add: binary_bytes_def)

lemma entries_of_sizes:
  "entries_of images = Inr ens \<Longrightarrow>
   sum_list (map local_size ens) =
     (\<Sum>img\<leftarrow>images. 30 + length (TextEncoder_encode (filename img)) +
        length (projr (atob (data img)))) \<and>
   index_size (cds k ens) =
     (\<Sum>img\<leftarrow>images. 46 + length (TextEncoder_encode (filename img)))"
proof (induction images arbitrary: ens k)
  case Nil
  then show ?case by (simp add: index_size_def)
next
  case (Cons img imgs)
  from Cons.prems obtain en ens' where e: "entry_of img = Inr en" "entries_of imgs = Inr ens'"
    "ens = en # ens'"
    by (auto split: sum.splits)
  from e(1) have en: "fst en = TextEncoder_encode (filename img)"
    "length (snd en) = length (projr (atob (data img)))"
    by (auto simp: entry_of_def split: sum.splits)
  from Cons.IH [OF e(2), of "k + local_size en"] show ?case
    by (simp add: e(3) en local_size_def index_size_def)
qed

lemma u32_lh_size1: "u32 (lh_bytes fnb n @ rest) 18 = n mod 2 ^ 32"
  by (simp add: lh_bytes_def u32_append_right u32_le32)

lemma u32_lh_size2: "u32 (lh_bytes fnb n @ rest) 22 = n mod 2 ^ 32"
  by (simp add: lh_bytes_def u32_append_right u32_le32)

lemma u16_lh_namelen: "u16 (lh_bytes fnb n @ rest) 26 = length fnb mod 2 ^ 16"
  by (simp add: lh_bytes_def u16_append_right u16_le16)

lemma enc_surrogate: "TextEncoder_encode [0xD800] = [0xEF, 0xBF, 0xBD]"
  by (simp add: TextEncoder_encode_def utf8_bytes_def is_lead_surrogate_def)

lemma surrogate_entries_of: "entries_of surrogate_images = Inr [([0xEF, 0xBF, 0xBD], [])]"
  by (simp add: surrogate_images_def entry_of_def atob_empty enc_surrogate binary_bytes_def)

lemma u32_ch_size1: "u32 (ch_bytes e @ rest) 20 = cd_size e mod 2 ^ 32"
  by (simp add: ch_bytes_def u32_append_right u32_le32)

lemma u32_ch_size2: "u32 (ch_bytes e @ rest) 24 = cd_size e mod 2 ^ 32"
  by (simp add: ch_bytes_def u32_append_right u32_le32)

lemma u16_ch_namelen: "u16 (ch_bytes e @ rest) 28 = length (cd_filenameBytes e) mod 2 ^ 16"
  by (simp add: ch_bytes_def u16_append_right u16_le16)

lemma scalar_values_replicate_a:
  "scalar_values (replicate (Suc n) 0x61) = replicate (Suc n) 97"
  by (induction n) (simp_all add: is_lead_surrogate_def is_trail_surrogate_def)

lemma concat_replicate_single: "concat (replicate n [c]) = replicate n c"
  by (induction n) simp_all

lemma enc_replicate_a: "TextEncoder_encode (replicate (Suc n) 0x61) = replicate (Suc n) 0x61"
  unfolding TextEncoder_encode_def scalar_values_replicate_a
  by (simp add: utf8_bytes_def concat_replicate_single del: replicate.simps)

lemma enc_long_name: "TextEncoder_encode (replicate 65537 0x61) = replicate 65537 0x61"
  using enc_replicate_a [of 65536] by simp

lemma long_name_entries_of:
  "entries_of long_name_images = Inr [(replicate 65537 0x61, [])]"
  by (simp add: long_name_images_def entry_of_def atob_empty enc_long_name binary_bytes_def)

lemma long_name_zip:
  "createZipFromBase64Images long_name_images =
     Inr \<lparr>blob_bytes = archive [(replicate 65537 0x61, [])], blob_type = ''application/zip''\<rparr>"
  by (rule createZip_ok [OF long_name_entries_of])

lemma long_name_field: "getUint16 (archive [(replicate 65537 0x61, [])]) 26 = Some 1"
proof -
  obtain rest where a: "archive [(replicate 65537 0x61, [])] =
      lh_bytes (replicate 65537 0x61) 0 @ rest"
    by (simp add: archive_def local_parts_def)
  show ?thesis unfolding a by (simp add: getUint16_def u16_lh_namelen)
qed

lemma entries_of_decoded:
  "entries_of images = Inr ens \<Longrightarrow>
   map fst ens = map (\<lambda>img. TextEncoder_encode (filename img)) images \<and>
   map snd ens = map (\<lambda>img. binary_bytes (projr (atob (data img)))) images"
proof (induction images arbitrary: ens)
  case Nil
  then show ?case by simp
next
  case (Cons img imgs)
  then show ?case by (auto simp: entry_of_def split: sum.splits)
qed



lemma archive_records:
  "archive ens =
     concat (map local_bytes ens) @ concat (map ch_bytes (cds 0 ens)) @
     er_bytes (length ens) (index_size (cds 0 ens)) (sum_list (map local_size ens))"
  by (simp add: archive_def concat_local_parts)

lemma example_images_length: "length example_images = 2"
  by (simp add: example_images_def)

lemma atob_broken: "atob (js ''d29yb'') = Inl InvalidCharacterError"
  by (simp add: js_def atob_def is_ascii_whitespace_def strip_padding_def)

lemma outcomes_from_step:
  "i < length currentFiles \<Longrightarrow>
   outcomes_from gw currentFiles i = gw i (currentFiles ! i) # outcomes_from gw currentFiles (i + 1)"
  by (simp add: outcomes_from_def upt_conv_Cons)

lemma outcomes_from_end:
  "\<not> i < length currentFiles \<Longrightarrow> outcomes_from gw currentFiles i = []"
  by (simp add: outcomes_from_def)

lemma updateFileStatus_other [simp]:
  "convertedImages (updateFileStatus n i st s) = convertedImages s"
  "errorCount (updateFileStatus n i st s) = errorCount s"
  "buttonProgress (updateFileStatus n i st s) = buttonProgress s"
  "zipCalls (updateFileStatus n i st s) = zipCalls s"
  "download (updateFileStatus n i st s) = download s"
  "resultInfo (updateFileStatus n i st s) = resultInfo s"
  "toasts (updateFileStatus n i st s) = toasts s"
  "thrown (updateFileStatus n i st s) = thrown s"
  by (simp_all add: updateFileStatus_def Let_def split: option.splits)

lemma step_convertedImages:
  "convertedImages (convert_step gw currentFiles i s) =
     convertedImages s @ map projr (filter (\<lambda>r. \<not> isl r) [gw i (currentFiles ! i)])"
  by (simp add: convert_step_def updateButtonProgress_def Let_def split: sum.splits)

lemma step_errorCount:
  "errorCount (convert_step gw currentFiles i s) =
     errorCount s + length (filter isl [gw i (currentFiles ! i)])"
  by (simp add: convert_step_def updateButtonProgress_def Let_def split: sum.splits)


lemma step_rest:
  "zipCalls (convert_step gw currentFiles i s) = zipCalls s \<and>
   download (convert_step gw currentFiles i s) = download s \<and>
   resultInfo (convert_step gw currentFiles i s) = resultInfo s \<and>
   toasts (convert_step gw currentFiles i s) = toasts s \<and>
   thrown (convert_step gw currentFiles i s) = thrown s"
  by (simp add: convert_step_def updateButtonProgress_def Let_def split: sum.splits)

lemma loop_convertedImages:
  "convertedImages (convert_loop gw currentFiles i s) =
     convertedImages s @ map projr (filter (\<lambda>r. \<not> isl r) (outcomes_from gw currentFiles i))"
proof (induction gw currentFiles i s rule: convert_loop.induct)
  case (1 gw currentFiles i s)
  show ?case
  proof (cases "i < length currentFiles")
    case True
    with 1 show ?thesis
      by (simp add: convert_loop.simps [of gw currentFiles i s] step_convertedImages
          outcomes_from_step)
  next
    case False
    then show ?thesis
      by (simp add: convert_loop.simps [of gw currentFiles i s] outcomes_from_end)
  qed
qed

lemma loop_errorCount:
  "errorCount (convert_loop gw currentFiles i s) =
     errorCount s + length (filter isl (outcomes_from gw currentFiles i))"
proof (induction gw currentFiles i s rule: convert_loop.induct)
  case (1 gw currentFiles i s)
  show ?case
  proof (cases "i < length currentFiles")
    case True
    with 1 show ?thesis
      by (simp add: convert_loop.simps [of gw currentFiles i s] step_errorCount
          outcomes_from_step)
  next
    case False
    then show ?thesis
      by (simp add: convert_loop.simps [of gw currentFiles i s] outcomes_from_end)
  qed
qed


lemma loop_rest:
  "zipCalls (convert_loop gw currentFiles i s) = zipCalls s \<and>
   download (convert_loop gw currentFiles i s) = download s \<and>
   resultInfo (convert_loop gw currentFiles i s) = resultInfo s \<and>
   toasts (convert_loop gw currentFiles i s) = toasts s \<and>
   thrown (convert_loop gw currentFiles i s) = thrown s"
proof (induction gw currentFiles i s rule: convert_loop.induct)
  case (1 gw currentFiles i s)
  show ?case
  proof (cases "i < length currentFiles")
    case True
    with 1 show ?thesis
      by (simp add: convert_loop.simps [of gw currentFiles i s] step_rest)
  next
    case False
    then show ?thesis
      by (simp add: convert_loop.simps [of gw currentFiles i s])
  qed
qed

lemma run_results:
  "convertedImages (convertBulkWithProgress gw currentFiles) = succeeded gw currentFiles"
  by (simp add: convertBulkWithProgress_def Let_def loop_convertedImages initial_state_def
      succeeded_def split: sum.splits)

lemma run_errorCount:
  "errorCount (convertBulkWithProgress gw currentFiles) =
     length (filter isl (outcomes_from gw currentFiles 0))"
  by (simp add: convertBulkWithProgress_def Let_def loop_errorCount initial_state_def
      split: sum.splits)


lemma run_zipCalls:
  "zipCalls (convertBulkWithProgress gw currentFiles) =
     (if succeeded gw currentFiles = [] then [] else [succeeded gw currentFiles])"
  by (simp add: convertBulkWithProgress_def Let_def loop_convertedImages loop_rest
      initial_state_def succeeded_def split: sum.splits)

lemma run_download:
  "download (convertBulkWithProgress gw currentFiles) =
     (if succeeded gw currentFiles = [] then None
      else (case createZipFromBase64Images (succeeded gw currentFiles) of
              Inl e \<Rightarrow> None
            | Inr zipBlob \<Rightarrow> Some (zipBlob, ''converted_images.zip'')))"
  by (simp add: convertBulkWithProgress_def Let_def loop_convertedImages loop_rest
      initial_state_def succeeded_def split: sum.splits)

lemma run_toasts:
  "toasts (convertBulkWithProgress gw currentFiles) =
     (if succeeded gw currentFiles = [] then [NoImagesCouldBeConverted]
      else (case createZipFromBase64Images (succeeded gw currentFiles) of
              Inl e \<Rightarrow> []
            | Inr zipBlob \<Rightarrow>
                [ImagesConvertedSuccessfully (length (succeeded gw currentFiles))]))"
  by (simp add: convertBulkWithProgress_def Let_def loop_convertedImages loop_rest
      initial_state_def succeeded_def split: sum.splits)


lemma length_outcomes_from [simp]:
  "length (outcomes_from gw currentFiles 0) = length currentFiles"
  by (simp add: outcomes_from_def)

lemma nth_outcomes_from:
  "i < length currentFiles \<Longrightarrow> outcomes_from gw currentFiles 0 ! i = gw i (currentFiles ! i)"
  by (simp add: outcomes_from_def)





section \<open>The file list during a run\<close>



lemma row_index_set_status [simp]: "row_index (set_status st r) = row_index r"
  by (simp add: set_status_def)

lemma row_status_set_status [simp]: "row_status (set_status st r) = st"
  by (simp add: set_status_def)


lemma final_status_not_Pending [simp]: "final_status r \<noteq> Pending"
  by (simp add: final_status_def)





lemma updateFileStatus_unfollowed:
  "fileList s = None \<Longrightarrow> updateFileStatus n i st s = s"
  by (simp add: updateFileStatus_def)

lemma fileList_other [simp]:
  "fileList (updateButtonProgress c t s) = fileList s"
  "fileList (s\<lparr>convertedImages := x\<rparr>) = fileList s"
  "fileList (s\<lparr>errorCount := y\<rparr>) = fileList s"
  by (simp_all add: updateButtonProgress_def)



lemma step_fileList_unfollowed:
  "fileList s = None \<Longrightarrow> fileList (convert_step gw currentFiles i s) = None"
  by (simp add: convert_step_def Let_def updateFileStatus_unfollowed split: sum.splits)


lemma loop_fileList_unfollowed:
  "fileList s = None \<Longrightarrow> fileList (convert_loop gw currentFiles i s) = None"
proof (induction gw currentFiles i s rule: convert_loop.induct)
  case (1 gw currentFiles i s)
  show ?case
  proof (cases "i < length currentFiles")
    case True
    with 1 show ?thesis
      by (simp add: convert_loop.simps [of gw currentFiles i s] step_fileList_unfollowed)
  next
    case False
    with 1 show ?thesis by (simp add: convert_loop.simps [of gw currentFiles i s])
  qed
qed

lemma run_fileList_loop:
  "fileList (convertBulkWithProgress gw currentFiles) =
     fileList (convert_loop gw currentFiles 0 (initial_state currentFiles))"
  by (simp add: convertBulkWithProgress_def Let_def split: sum.splits)


lemma first_markup_None:
  "first_markup fs = None \<longleftrightarrow> list_all (\<lambda>f. \<not> has_lt (file_name f)) fs"
  by (induction fs) auto





lemma run_fileList_unfollowed:
  "showFileList currentFiles = None \<Longrightarrow>
   fileList (convertBulkWithProgress gw currentFiles) = None"
  by (simp add: run_fileList_loop loop_fileList_unfollowed initial_state_def)





section \<open>The claims\<close>

subsection \<open>C1: The checksum fields\<close>

text \<open>
  C1 (as amended). The encoder computes no checksum: for every entry of an archive it
  returns, the 32-bit checksum field of the local header (at offset 14 of the header) and
  of the index record (at offset 16 of the record) is zero, whatever the content. The
  header starts at the recorded offset of the entry and the index record at its position
  in the index region; both positions carry the respective signature.
\<close>

theorem checksum_fields_are_zero:
  assumes "entries_loop images ([], 0, []) = Inr (zipParts, offset, centralDirectory)"
    and "createZipFromBase64Images images = Inr b"
    and "i < length images"
  shows "take 4 (drop (cd_offset (centralDirectory ! i)) (blob_bytes b)) =
           le32 LOCAL_FILE_HEADER_SIG \<and>
         getUint32 (blob_bytes b) (cd_offset (centralDirectory ! i) + 14) = Some 0 \<and>
         take 4 (drop (index_pos offset centralDirectory i) (blob_bytes b)) =
           le32 CENTRAL_DIR_HEADER_SIG \<and>
         getUint32 (blob_bytes b) (index_pos offset centralDirectory i + 16) = Some 0"
proof -
  from assms(1) obtain ens where ens: "entries_of images = Inr ens"
    "offset = sum_list (map local_size ens)" "centralDirectory = cds 0 ens"
    "length ens = length images"
    "createZipFromBase64Images images =
       Inr \<lparr>blob_bytes = archive ens, blob_type = ''application/zip''\<rparr>"
    by (rule encoder_states)
  from ens(5) assms(2) have buf: "blob_bytes b = archive ens" by auto
  have i: "i < length ens" using assms(3) ens(4) by simp
  from archive_at_local [OF i] obtain pre post where
    l: "archive ens = pre @ local_bytes (ens ! i) @ post"
       "length pre = cd_offset (cds 0 ens ! i)" by blast
  from archive_at_index [OF i] obtain pre' post' where
    x: "archive ens = pre' @ ch_bytes (cds 0 ens ! i) @ post'"
       "length pre' = index_pos (sum_list (map local_size ens)) (cds 0 ens) i" by blast
  have "take 4 (drop (cd_offset (cds 0 ens ! i)) (archive ens)) = le32 LOCAL_FILE_HEADER_SIG"
    unfolding l(1) using l(2) by (simp add: local_bytes_def lh_bytes_def)
  moreover have "getUint32 (archive ens) (cd_offset (cds 0 ens ! i) + 14) = Some 0"
    unfolding l(1) using getUint32_at [OF l(2), of 14 "local_bytes (ens ! i)" post]
    by (simp add: local_bytes_def u32_lh_crc)
  moreover have "take 4 (drop (index_pos (sum_list (map local_size ens)) (cds 0 ens) i)
      (archive ens)) = le32 CENTRAL_DIR_HEADER_SIG"
    unfolding x(1) using x(2) by (simp add: ch_bytes_def)
  moreover have "getUint32 (archive ens)
      (index_pos (sum_list (map local_size ens)) (cds 0 ens) i + 16) = Some 0"
    unfolding x(1) using getUint32_at [OF x(2), of 16 "ch_bytes (cds 0 ens ! i)" post']
    by (simp add: u32_ch_crc)
  ultimately show ?thesis by (simp add: buf ens(2,3))
qed

text \<open>
  C1 at the example: the second entry, whose local header lies at 40 and whose index
  record lies at 132.
\<close>

theorem checksum_fields_are_zero_witness:
  "take 4 (drop 40 example_archive) = le32 LOCAL_FILE_HEADER_SIG \<and>
   getUint32 example_archive (40 + 14) = Some 0 \<and>
   take 4 (drop 132 example_archive) = le32 CENTRAL_DIR_HEADER_SIG \<and>
   getUint32 example_archive (132 + 16) = Some 0"
  using checksum_fields_are_zero [OF example_loop example_zip, of 1]
  by (simp add: example_images_def example_entries_def index_pos_def index_size_def
      local_size_def)

text \<open>
  C1 as stated fails: the first entry of the example has content \<open>hello\<close>, whose CRC-32
  is \<open>0x3610A686\<close>, and the checksum field of its local header is 0.
\<close>

theorem checksum_field_counterexample:
  "getUint32 (blob_bytes (projr (createZipFromBase64Images example_images))) 14 = Some 0 \<and>
   unat (crc32 (snd (projr (entry_of (example_images ! 0))))) = 0x3610A686 \<and>
   getUint32 (blob_bytes (projr (createZipFromBase64Images example_images))) 14 \<noteq>
     Some (unat (crc32 (snd (projr (entry_of (example_images ! 0))))))"
proof -
  have e: "entry_of (example_images ! 0) = Inr (example_entries ! 0)"
    using entries_of_nth [OF example_entries_of, of 0] by (simp add: example_images_def)
  have c: "crc32 (snd (example_entries ! 0)) = 0x3610A686"
    by (simp add: example_entries_def crc_hello)
  have f: "getUint32 example_archive 14 = Some 0"
    by (simp add: example_archive_def getUint32_def u32_def)
  show ?thesis by (simp add: example_zip e c f)
qed

subsection \<open>C2: Local header offsets\<close>

text \<open>
  C2 (as amended). After the first loop, the offset recorded for entry \<open>i\<close> is the number
  of bytes of the parts pushed before its local header, which is part \<open>2 * i\<close> and starts
  with the local header signature; recorded offsets grow strictly with the entry index; in
  the returned buffer the local header of entry \<open>i\<close> lies at its recorded offset and its
  index record at its position in the index region. The 32-bit offset field of the index
  record (at offset 42) holds the recorded offset modulo \<open>2 ^ 32\<close>: it is the recorded
  offset, and so points at the signature of the entry's local header, provided the
  recorded offset is below \<open>2 ^ 32\<close>.
\<close>

theorem local_offsets_follow_running_total:
  assumes "entries_loop images ([], 0, []) = Inr (zipParts, offset, centralDirectory)"
    and "createZipFromBase64Images images = Inr b"
    and "i < length images"
  shows "cd_offset (centralDirectory ! i) = length (concat (take (2 * i) zipParts)) \<and>
         take 4 (zipParts ! (2 * i)) = le32 LOCAL_FILE_HEADER_SIG \<and>
         (i < j \<and> j < length images \<longrightarrow>
            cd_offset (centralDirectory ! i) < cd_offset (centralDirectory ! j)) \<and>
         take (length (zipParts ! (2 * i))) (drop (cd_offset (centralDirectory ! i)) (blob_bytes b)) =
           zipParts ! (2 * i) \<and>
         take (length (ch_bytes (centralDirectory ! i)))
              (drop (index_pos offset centralDirectory i) (blob_bytes b)) =
           ch_bytes (centralDirectory ! i) \<and>
         getUint32 (blob_bytes b) (index_pos offset centralDirectory i + 42) =
           Some (cd_offset (centralDirectory ! i) mod 2 ^ 32) \<and>
         (cd_offset (centralDirectory ! i) < 2 ^ 32 \<longrightarrow>
            getUint32 (blob_bytes b) (index_pos offset centralDirectory i + 42) =
              Some (cd_offset (centralDirectory ! i)))"
proof -
  from assms(1) obtain ens where ens: "entries_of images = Inr ens"
    "zipParts = concat (map local_parts ens)"
    "offset = sum_list (map local_size ens)" "centralDirectory = cds 0 ens"
    "length ens = length images"
    "createZipFromBase64Images images =
       Inr \<lparr>blob_bytes = archive ens, blob_type = ''application/zip''\<rparr>"
    by (rule encoder_states)
  from ens(6) assms(2) have buf: "blob_bytes b = archive ens" by auto
  have i: "i < length ens" using assms(3) ens(5) by simp
  from archive_at_local [OF i] obtain pre post where
    l: "archive ens = pre @ local_bytes (ens ! i) @ post"
       "length pre = cd_offset (cds 0 ens ! i)" by blast
  from archive_at_index [OF i] obtain pre' post' where
    x: "archive ens = pre' @ ch_bytes (cds 0 ens ! i) @ post'"
       "length pre' = index_pos (sum_list (map local_size ens)) (cds 0 ens) i" by blast
  have p1: "cd_offset (cds 0 ens ! i) = length (concat (take (2 * i) (concat (map local_parts ens))))"
    by (simp add: cds_nth [OF i] take_local_parts concat_local_parts length_entries_region)
  have hd: "concat (map local_parts ens) ! (2 * i) = lh_bytes (fst (ens ! i)) (length (snd (ens ! i)))"
    using nth_local_parts [OF i] by simp
  have p2: "take 4 (concat (map local_parts ens) ! (2 * i)) = le32 LOCAL_FILE_HEADER_SIG"
    by (simp add: hd lh_bytes_def)
  have p3: "i < j \<and> j < length images \<longrightarrow> cd_offset (cds 0 ens ! i) < cd_offset (cds 0 ens ! j)"
  proof
    assume a: "i < j \<and> j < length images"
    then have j: "j < length ens" "j \<le> length ens" using ens(5) by simp_all
    from sum_take_strict [of i j ens] a j(2)
    show "cd_offset (cds 0 ens ! i) < cd_offset (cds 0 ens ! j)"
      by (simp add: cds_nth [OF i] cds_nth [OF j(1)])
  qed
  have p4: "take (length (concat (map local_parts ens) ! (2 * i)))
      (drop (cd_offset (cds 0 ens ! i)) (archive ens)) = concat (map local_parts ens) ! (2 * i)"
    unfolding l(1) hd using l(2) by (simp add: local_bytes_def)
  have p5: "take (length (ch_bytes (cds 0 ens ! i)))
      (drop (index_pos (sum_list (map local_size ens)) (cds 0 ens) i) (archive ens)) =
      ch_bytes (cds 0 ens ! i)"
    unfolding x(1) using x(2) by simp
  have p6: "getUint32 (archive ens)
      (index_pos (sum_list (map local_size ens)) (cds 0 ens) i + 42) =
        Some (cd_offset (cds 0 ens ! i) mod 2 ^ 32)"
    unfolding x(1) using getUint32_at [OF x(2), of 42 "ch_bytes (cds 0 ens ! i)" post']
    by (simp add: u32_ch_offset)
  have p7: "cd_offset (cds 0 ens ! i) < 2 ^ 32 \<longrightarrow>
      getUint32 (archive ens) (index_pos (sum_list (map local_size ens)) (cds 0 ens) i + 42) =
        Some (cd_offset (cds 0 ens ! i))"
    using p6 by simp
  from p1 p2 p3 p4 p5 p6 p7 show ?thesis
    unfolding buf ens(2,3,4) by blast
qed

text \<open>
  C2 at the example: the second entry is recorded at offset 40, after the first, and the
  offset field of its index record (the record at 132) reads 40.
\<close>

theorem local_offsets_follow_running_total_witness:
  "cd_offset (cds 0 example_entries ! 0) < cd_offset (cds 0 example_entries ! 1) \<and>
   cd_offset (cds 0 example_entries ! 1) = 40 \<and>
   index_pos 81 (cds 0 example_entries) 1 = 132 \<and>
   getUint32 example_archive (132 + 42) = Some 40"
proof -
  let ?b = "\<lparr>blob_bytes = example_archive, blob_type = ''application/zip''\<rparr>"
  have c: "cds 0 example_entries =
     [\<lparr>cd_offset = 0, cd_filenameBytes = [0x78, 0x2E, 0x74, 0x78, 0x74], cd_size = 5\<rparr>,
      \<lparr>cd_offset = 40, cd_filenameBytes = [0x79, 0x2E, 0x74, 0x78, 0x74], cd_size = 6\<rparr>]"
    by (simp add: example_entries_def local_size_def)
  have l: "0 < length example_images" "1 < length example_images"
    by (simp_all add: example_images_def)
  have x: "index_pos 81 (cds 0 example_entries) 1 = 132"
    by (simp add: c index_pos_def index_size_def)
  have o: "cd_offset (cds 0 example_entries ! 1) = 40" by (simp add: c)
  have small: "cd_offset (cds 0 example_entries ! 1) < 2 ^ 32" by (simp add: c)
  from local_offsets_follow_running_total [OF example_loop example_zip l(1), of 1] l(2)
  have "cd_offset (cds 0 example_entries ! 0) < cd_offset (cds 0 example_entries ! 1)"
    by blast
  moreover from local_offsets_follow_running_total [OF example_loop example_zip l(2), of 2] small
  have "getUint32 (blob_bytes ?b) (index_pos 81 (cds 0 example_entries) 1 + 42) =
      Some (cd_offset (cds 0 example_entries ! 1))"
    by blast
  ultimately show ?thesis using x o by simp
qed

text \<open>
  C2 as stated fails once an archive passes 4 GiB. Of 23 entries of 192 MiB each, the last
  has its local header recorded at offset 4429185706; the offset field of its index record
  holds that number modulo \<open>2 ^ 32\<close>, 134218410, a position inside the first entry's
  content, where the bytes are zero and not the local header signature.
\<close>

theorem offset_field_wraps_counterexample:
  "\<not> isl (createZipFromBase64Images big_images) \<and>
   length big_images = 23 \<and>
   entries_loop big_images ([], 0, []) =
     Inr (concat (map local_parts big_entries), 4630512329, cds 0 big_entries) \<and>
   cd_offset (cds 0 big_entries ! 22) = 4429185706 \<and>
   getUint32 big_buffer (index_pos 4630512329 (cds 0 big_entries) 22 + 42) =
     Some 134218410 \<and>
   take 4 (drop 134218410 big_buffer) = [0, 0, 0, 0] \<and>
   take 4 (drop 134218410 big_buffer) \<noteq> le32 LOCAL_FILE_HEADER_SIG"
proof -
  have b: "big_buffer = archive big_entries" by (simp add: big_buffer_def big_zip)
  have s: "le32 LOCAL_FILE_HEADER_SIG = [80, 75, 3, 4]" by (rule le32_values)
  have n: "length big_images = 23" by (simp add: big_images_def)
  show ?thesis
    unfolding b
    by (simp add: big_zip n big_loop big_last_offset big_offset_field big_buffer_zeros s)
qed

subsection \<open>C3: The trailer\<close>

text \<open>
  C3 (as amended). The last 22 bytes of a returned buffer are the trailer record. The index
  start \<open>centralDirOffset\<close> is the length of all parts pushed by the first loop, the
  last of which is the content of the last image: the position right after the last entry's
  content. The index region that starts there consists of the index records, and its
  length, the final cursor minus the index start, is the sum of their sizes. The trailer's
  two 16-bit entry counts hold the number of entries modulo \<open>2 ^ 16\<close>, and its 32-bit
  index start and index length fields hold these two numbers modulo \<open>2 ^ 32\<close>: the
  number of entries when that is below \<open>2 ^ 16\<close>, and the two numbers when they are
  below \<open>2 ^ 32\<close>.
\<close>

theorem trailer_describes_archive:
  assumes "entries_loop images ([], 0, []) = Inr (zipParts, offset, centralDirectory)"
    and "createZipFromBase64Images images = Inr b"
  shows "22 \<le> length (blob_bytes b) \<and>
         take 4 (drop (length (blob_bytes b) - 22) (blob_bytes b)) = le32 END_OF_CENTRAL_DIR_SIG \<and>
         offset = length (concat zipParts) \<and>
         (images \<noteq> [] \<longrightarrow> last zipParts = snd (projr (entry_of (last images)))) \<and>
         take (index_size centralDirectory) (drop offset (blob_bytes b)) =
           concat (map ch_bytes centralDirectory) \<and>
         length (blob_bytes b) - 22 = offset + index_size centralDirectory \<and>
         getUint16 (blob_bytes b) (length (blob_bytes b) - 22 + 8) =
           Some (length images mod 2 ^ 16) \<and>
         getUint16 (blob_bytes b) (length (blob_bytes b) - 22 + 10) =
           Some (length images mod 2 ^ 16) \<and>
         getUint32 (blob_bytes b) (length (blob_bytes b) - 22 + 16) =
           Some (offset mod 2 ^ 32) \<and>
         getUint32 (blob_bytes b) (length (blob_bytes b) - 22 + 12) =
           Some (index_size centralDirectory mod 2 ^ 32) \<and>
         (length images < 2 ^ 16 \<longrightarrow>
            getUint16 (blob_bytes b) (length (blob_bytes b) - 22 + 8) = Some (length images) \<and>
            getUint16 (blob_bytes b) (length (blob_bytes b) - 22 + 10) = Some (length images)) \<and>
         (offset < 2 ^ 32 \<longrightarrow>
            getUint32 (blob_bytes b) (length (blob_bytes b) - 22 + 16) = Some offset) \<and>
         (index_size centralDirectory < 2 ^ 32 \<longrightarrow>
            getUint32 (blob_bytes b) (length (blob_bytes b) - 22 + 12) =
              Some (index_size centralDirectory))"
proof -
  from assms(1) obtain ens where ens: "entries_of images = Inr ens"
    "zipParts = concat (map local_parts ens)"
    "offset = sum_list (map local_size ens)" "centralDirectory = cds 0 ens"
    "length ens = length images"
    "createZipFromBase64Images images =
       Inr \<lparr>blob_bytes = archive ens, blob_type = ''application/zip''\<rparr>"
    by (rule encoder_states)
  from ens(6) assms(2) have buf: "blob_bytes b = archive ens" by auto
  let ?er = "er_bytes (length ens) (index_size (cds 0 ens)) (sum_list (map local_size ens))"
  from archive_at_trailer [of ens] obtain pre where
    t: "archive ens = pre @ ?er @ []"
       "length pre = sum_list (map local_size ens) + index_size (cds 0 ens)" by auto
  have len: "length (archive ens) - 22 = length pre" unfolding t(1) by simp
  have p1: "22 \<le> length (archive ens)" by (simp add: length_archive)
  have p2: "take 4 (drop (length pre) (archive ens)) = le32 END_OF_CENTRAL_DIR_SIG"
    unfolding t(1) by (simp add: er_bytes_def)
  have p3: "sum_list (map local_size ens) = length (concat (concat (map local_parts ens)))"
    by (simp add: concat_local_parts length_entries_region)
  have p4: "images \<noteq> [] \<longrightarrow>
      last (concat (map local_parts ens)) = snd (projr (entry_of (last images)))"
  proof
    assume a: "images \<noteq> []"
    then have "ens \<noteq> []" using ens(5) by auto
    then show "last (concat (map local_parts ens)) = snd (projr (entry_of (last images)))"
      by (simp add: last_local_parts entries_of_last [OF ens(1) a])
  qed
  have m1: "getUint16 (archive ens) (length pre + 8) = Some (length images mod 2 ^ 16)"
    unfolding t(1) using getUint16_at [OF refl, of 8 ?er pre "[]"]
    by (simp add: u16_er_count1 ens(5))
  have m2: "getUint16 (archive ens) (length pre + 10) = Some (length images mod 2 ^ 16)"
    unfolding t(1) using getUint16_at [OF refl, of 10 ?er pre "[]"]
    by (simp add: u16_er_count2 ens(5))
  have m3: "getUint32 (archive ens) (length pre + 16) =
      Some (sum_list (map local_size ens) mod 2 ^ 32)"
    unfolding t(1) using getUint32_at [OF refl, of 16 ?er pre "[]"]
    by (simp add: u32_er_offset)
  have m4: "getUint32 (archive ens) (length pre + 12) = Some (index_size (cds 0 ens) mod 2 ^ 32)"
    unfolding t(1) using getUint32_at [OF refl, of 12 ?er pre "[]"]
    by (simp add: u32_er_size)
  have p7: "length images < 2 ^ 16 \<longrightarrow>
      getUint16 (archive ens) (length pre + 8) = Some (length images) \<and>
      getUint16 (archive ens) (length pre + 10) = Some (length images)"
    using m1 m2 by simp
  have p8: "sum_list (map local_size ens) < 2 ^ 32 \<longrightarrow>
      getUint32 (archive ens) (length pre + 16) = Some (sum_list (map local_size ens))"
    using m3 by simp
  have p9: "index_size (cds 0 ens) < 2 ^ 32 \<longrightarrow>
      getUint32 (archive ens) (length pre + 12) = Some (index_size (cds 0 ens))"
    using m4 by simp
  from p1 p2 p3 p4 archive_index_region [of ens] t(2) m1 m2 m3 m4 p7 p8 p9 show ?thesis
    unfolding buf ens(2,3,4) len by blast
qed

text \<open>
  C3 at the example: 205 bytes, two entries, the last part of the first loop being
  \<open>world!\<close>, and an index region of 102 bytes starting at 81.
\<close>

theorem trailer_describes_archive_witness:
  "length example_images = 2 \<and>
   last (concat (map local_parts example_entries)) = [0x77, 0x6F, 0x72, 0x6C, 0x64, 0x21] \<and>
   getUint16 example_archive (205 - 22 + 8) = Some 2 \<and>
   getUint16 example_archive (205 - 22 + 10) = Some 2 \<and>
   getUint32 example_archive (205 - 22 + 16) = Some 81 \<and>
   getUint32 example_archive (205 - 22 + 12) = Some 102"
proof -
  let ?b = "\<lparr>blob_bytes = example_archive, blob_type = ''application/zip''\<rparr>"
  have c: "cds 0 example_entries =
     [\<lparr>cd_offset = 0, cd_filenameBytes = [0x78, 0x2E, 0x74, 0x78, 0x74], cd_size = 5\<rparr>,
      \<lparr>cd_offset = 40, cd_filenameBytes = [0x79, 0x2E, 0x74, 0x78, 0x74], cd_size = 6\<rparr>]"
    by (simp add: example_entries_def local_size_def)
  have n: "length example_images = 2" by (simp add: example_images_def)
  have l: "length (blob_bytes ?b) = 205" by (simp add: example_archive_def)
  have x: "index_size (cds 0 example_entries) = 102" by (simp add: c index_size_def)
  have h: "length example_images < 2 ^ 16" "(81::nat) < 2 ^ 32"
    "index_size (cds 0 example_entries) < 2 ^ 32"
    by (simp_all add: n x)
  have ne: "example_images \<noteq> []" by (simp add: example_images_def)
  have e: "snd (projr (entry_of (last example_images))) = [0x77, 0x6F, 0x72, 0x6C, 0x64, 0x21]"
    by (simp add: example_images_def entry_of_def atob_world binary_bytes_def)
  note t = trailer_describes_archive [OF example_loop example_zip]
  from t ne have "last (concat (map local_parts example_entries)) =
      snd (projr (entry_of (last example_images)))"
    by blast
  moreover from t h
  have "getUint16 (blob_bytes ?b) (length (blob_bytes ?b) - 22 + 8) = Some (length example_images)"
    "getUint16 (blob_bytes ?b) (length (blob_bytes ?b) - 22 + 10) = Some (length example_images)"
    "getUint32 (blob_bytes ?b) (length (blob_bytes ?b) - 22 + 16) = Some 81"
    "getUint32 (blob_bytes ?b) (length (blob_bytes ?b) - 22 + 12) =
       Some (index_size (cds 0 example_entries))"
    by blast+
  ultimately show ?thesis unfolding l n x e by simp
qed

text \<open>
  C3 as stated fails for 65536 entries: both entry count fields of the trailer read 0.
\<close>

theorem entry_count_wraps_counterexample:
  "\<not> isl (createZipFromBase64Images many_images) \<and>
   length many_images = 65536 \<and>
   getUint16 many_buffer (length many_buffer - 22 + 8) = Some 0 \<and>
   getUint16 many_buffer (length many_buffer - 22 + 10) = Some 0"
proof -
  let ?ens = "replicate 65536 ([], []) :: entry list"
  let ?er = "er_bytes (length ?ens) (index_size (cds 0 ?ens)) (sum_list (map local_size ?ens))"
  have b: "many_buffer = archive ?ens" by (simp add: many_buffer_def many_zip)
  from archive_at_trailer [of ?ens] obtain pre where
    t: "archive ?ens = pre @ ?er @ []" by auto
  have len: "length (archive ?ens) - 22 = length pre" unfolding t by simp
  have "getUint16 (archive ?ens) (length pre + 8) = Some 0"
    unfolding t using getUint16_at [OF refl, of 8 ?er pre "[]"]
    by (simp add: u16_er_count1)
  moreover have "getUint16 (archive ?ens) (length pre + 10) = Some 0"
    unfolding t using getUint16_at [OF refl, of 10 ?er pre "[]"]
    by (simp add: u16_er_count2)
  moreover have "length many_images = 65536" by (simp add: many_images_def)
  ultimately show ?thesis
    unfolding b len by (simp add: many_zip)
qed

subsection \<open>C4: Order of results and entries\<close>



subsection \<open>C5: Every item is accounted for\<close>




subsection \<open>C6: Nothing to package\<close>

text \<open>
  C6. When the gateway fails for every item, the encoder is never called, no archive is
  put behind the download button and the caller is told that no images could be
  converted.
\<close>

theorem all_failed_never_invokes_encoder:
  assumes "\<forall>i < length currentFiles. isl (gw i (currentFiles ! i))"
  shows "zipCalls (convertBulkWithProgress gw currentFiles) = [] \<and>
         download (convertBulkWithProgress gw currentFiles) = None \<and>
         toasts (convertBulkWithProgress gw currentFiles) = [NoImagesCouldBeConverted] \<and>
         convertedImages (convertBulkWithProgress gw currentFiles) = [] \<and>
         errorCount (convertBulkWithProgress gw currentFiles) = length currentFiles"
proof -
  from assms have "filter (\<lambda>r. \<not> isl r) (outcomes_from gw currentFiles 0) = []"
    by (auto simp: outcomes_from_def filter_empty_conv)
  then have s: "succeeded gw currentFiles = []" by (simp add: succeeded_def)
  from assms have "filter isl (outcomes_from gw currentFiles 0) = outcomes_from gw currentFiles 0"
    by (auto simp: outcomes_from_def intro!: filter_True)
  then have e: "length (filter isl (outcomes_from gw currentFiles 0)) = length currentFiles"
    by simp
  show ?thesis
    by (simp add: run_zipCalls run_download run_toasts run_results run_errorCount s e)
qed

text \<open>
  C6 at three files and a gateway that always fails.
\<close>

theorem all_failed_never_invokes_encoder_witness:
  "zipCalls (convertBulkWithProgress failing_gateway example_files) = [] \<and>
   download (convertBulkWithProgress failing_gateway example_files) = None \<and>
   toasts (convertBulkWithProgress failing_gateway example_files) = [NoImagesCouldBeConverted] \<and>
   errorCount (convertBulkWithProgress failing_gateway example_files) = 3"
proof -
  have f: "\<forall>i < length example_files. isl (failing_gateway i (example_files ! i))"
    by (simp add: failing_gateway_def)
  have l: "length example_files = 3" by (simp add: example_files_def)
  from all_failed_never_invokes_encoder [of example_files failing_gateway] f
  show ?thesis by (simp add: l)
qed

subsection \<open>C7: Reading the example back\<close>

text \<open>
  C7 (as amended). Reading the archive of the two example entries with a reader that does
  not verify checksums yields exactly two members, named \<open>x.txt\<close> and \<open>y.txt\<close>, with
  contents \<open>hello\<close> and \<open>world!\<close>, both with method 0 (store).
\<close>

theorem round_trip_without_checksum_verification:
  "read_archive False (blob_bytes (projr (createZipFromBase64Images example_images))) =
     Inr [\<lparr>member_name = TextEncoder_encode (js ''x.txt''), member_method = 0,
            member_content = [0x68, 0x65, 0x6C, 0x6C, 0x6F]\<rparr>,
          \<lparr>member_name = TextEncoder_encode (js ''y.txt''), member_method = 0,
            member_content = [0x77, 0x6F, 0x72, 0x6C, 0x64, 0x21]\<rparr>]"
proof -
  have "blob_bytes (projr (createZipFromBase64Images example_images)) = example_archive"
    by (simp add: example_zip)
  moreover have "TextEncoder_encode (js ''x.txt'') = [0x78, 0x2E, 0x74, 0x78, 0x74]"
    "TextEncoder_encode (js ''y.txt'') = [0x79, 0x2E, 0x74, 0x78, 0x74]"
    by (rule enc_x, rule enc_y)
  ultimately show ?thesis
    by (simp add: read_lenient)
qed

text \<open>
  C7 as stated fails with a reader that verifies the recorded checksum, as the format
  asks: the checksum fields are zero, and the first member is rejected.
\<close>

theorem round_trip_counterexample:
  "read_archive True (blob_bytes (projr (createZipFromBase64Images example_images))) =
     Inl BadChecksum"
proof -
  have "blob_bytes (projr (createZipFromBase64Images example_images)) = example_archive"
    by (simp add: example_zip)
  then show ?thesis
    by (simp add: read_strict)
qed

subsection \<open>C8: Determinism\<close>

text \<open>
  C8. The encoder reads no clock and no other state (times and dates are written as
  zero): its result is a function of the image list, so two runs on the same list give
  the same bytes. More than that, the result depends only on the ordered sequence of
  encoded names and decoded contents: two lists with the same sequence give byte-identical
  output, or fail alike.
\<close>

theorem output_depends_only_on_entries:
  "entries_of images = entries_of images' \<Longrightarrow>
   createZipFromBase64Images images = createZipFromBase64Images images'"
proof (cases "entries_of images")
  case (Inl e)
  assume "entries_of images = entries_of images'"
  with Inl have "entries_of images' = Inl e" by simp
  with Inl show ?thesis by (simp add: createZip_fail)
next
  case (Inr ens)
  assume "entries_of images = entries_of images'"
  with Inr have "entries_of images' = Inr ens" by simp
  with Inr show ?thesis by (simp add: createZip_ok)
qed

text \<open>
  C8 at two different lists, the second with blanks in the base64 text and without
  padding: they give the same archive.
\<close>

theorem output_depends_only_on_entries_witness:
  "example_images \<noteq> spaced_images \<and>
   createZipFromBase64Images example_images = createZipFromBase64Images spaced_images"
proof -
  have "entries_of example_images = entries_of spaced_images"
    by (simp add: example_entries_of spaced_entries_of)
  from output_depends_only_on_entries [OF this]
  show ?thesis by (simp add: example_images_def spaced_images_def js_def)
qed

subsection \<open>C9: Malformed entries\<close>

text \<open>
  C9 (as amended). The encoder validates neither names nor sizes. Its only failure is a
  payload that is not valid base64: then the whole build ends with
  \<open>InvalidCharacterError\<close> and no buffer is returned. When every payload decodes, a
  buffer is always returned and it is complete: it is the local record (header, name,
  content) of every image in order, then the index record of every image in order, then
  the trailer, where the name of an entry is the UTF-8 encoding of the image's name (an
  unpaired surrogate encoded as U+FFFD) and its content the decoded payload. In that
  buffer the 32-bit size fields of the local header and of the index record of entry
  \<open>i\<close> hold the content length modulo \<open>2 ^ 32\<close>, their 16-bit name length fields
  hold the length of the encoded name modulo \<open>2 ^ 16\<close>, and the 32-bit offset field of
  the index record holds the recorded offset of the local header modulo \<open>2 ^ 32\<close>.
\<close>

theorem encoder_fails_only_on_invalid_base64:
  "((\<exists>img \<in> set images. isl (atob (data img))) \<longrightarrow>
      createZipFromBase64Images images = Inl InvalidCharacterError) \<and>
   ((\<forall>img \<in> set images. \<not> isl (atob (data img))) \<longrightarrow>
      (\<exists>ens. map fst ens = map (\<lambda>img. TextEncoder_encode (filename img)) images \<and>
             map snd ens = map (\<lambda>img. binary_bytes (projr (atob (data img)))) images \<and>
             createZipFromBase64Images images =
               Inr \<lparr>blob_bytes =
                      concat (map local_bytes ens) @ concat (map ch_bytes (cds 0 ens)) @
                      er_bytes (length ens) (index_size (cds 0 ens))
                        (sum_list (map local_size ens)),
                    blob_type = ''application/zip''\<rparr> \<and>
             length (concat (map local_bytes ens) @ concat (map ch_bytes (cds 0 ens)) @
                     er_bytes (length ens) (index_size (cds 0 ens))
                       (sum_list (map local_size ens))) =
               (\<Sum>img\<leftarrow>images. 30 + length (TextEncoder_encode (filename img)) +
                  length (projr (atob (data img)))) +
               (\<Sum>img\<leftarrow>images. 46 + length (TextEncoder_encode (filename img))) + 22)) \<and>
   (entries_loop images ([], 0, []) = Inr (zipParts, offset, centralDirectory) \<and>
    createZipFromBase64Images images = Inr b \<and> i < length images \<longrightarrow>
      cd_size (centralDirectory ! i) = length (zipParts ! (2 * i + 1)) \<and>
      cd_filenameBytes (centralDirectory ! i) = TextEncoder_encode (filename (images ! i)) \<and>
      getUint32 (blob_bytes b) (cd_offset (centralDirectory ! i) + 18) =
        Some (cd_size (centralDirectory ! i) mod 2 ^ 32) \<and>
      getUint32 (blob_bytes b) (cd_offset (centralDirectory ! i) + 22) =
        Some (cd_size (centralDirectory ! i) mod 2 ^ 32) \<and>
      getUint16 (blob_bytes b) (cd_offset (centralDirectory ! i) + 26) =
        Some (length (cd_filenameBytes (centralDirectory ! i)) mod 2 ^ 16) \<and>
      getUint32 (blob_bytes b) (index_pos offset centralDirectory i + 20) =
        Some (cd_size (centralDirectory ! i) mod 2 ^ 32) \<and>
      getUint32 (blob_bytes b) (index_pos offset centralDirectory i + 24) =
        Some (cd_size (centralDirectory ! i) mod 2 ^ 32) \<and>
      getUint16 (blob_bytes b) (index_pos offset centralDirectory i + 28) =
        Some (length (cd_filenameBytes (centralDirectory ! i)) mod 2 ^ 16) \<and>
      getUint32 (blob_bytes b) (index_pos offset centralDirectory i + 42) =
        Some (cd_offset (centralDirectory ! i) mod 2 ^ 32))"
proof (intro conjI impI)
  assume "\<exists>img \<in> set images. isl (atob (data img))"
  then have "isl (entries_of images)" by (simp add: entries_of_fails_iff)
  then obtain e where e: "entries_of images = Inl e" by (cases "entries_of images") auto
  with entries_of_error [OF e] show "createZipFromBase64Images images = Inl InvalidCharacterError"
    by (simp add: createZip_fail)
next
  assume "\<forall>img \<in> set images. \<not> isl (atob (data img))"
  then have "\<not> isl (entries_of images)" by (simp add: entries_of_fails_iff)
  then obtain ens where ens: "entries_of images = Inr ens" by (cases "entries_of images") auto
  let ?buf = "concat (map local_bytes ens) @ concat (map ch_bytes (cds 0 ens)) @
      er_bytes (length ens) (index_size (cds 0 ens)) (sum_list (map local_size ens))"
  have z: "createZipFromBase64Images images =
      Inr \<lparr>blob_bytes = ?buf, blob_type = ''application/zip''\<rparr>"
    using createZip_ok [OF ens] by (simp only: archive_records)
  have "length (archive ens) =
      (\<Sum>img\<leftarrow>images. 30 + length (TextEncoder_encode (filename img)) +
         length (projr (atob (data img)))) +
      (\<Sum>img\<leftarrow>images. 46 + length (TextEncoder_encode (filename img))) + 22"
    using entries_of_sizes [OF ens, of 0] by (simp add: length_archive)
  then have l: "length ?buf =
      (\<Sum>img\<leftarrow>images. 30 + length (TextEncoder_encode (filename img)) +
         length (projr (atob (data img)))) +
      (\<Sum>img\<leftarrow>images. 46 + length (TextEncoder_encode (filename img))) + 22"
    by (simp only: archive_records)
  from entries_of_decoded [OF ens] z l
  show "\<exists>ens. map fst ens = map (\<lambda>img. TextEncoder_encode (filename img)) images \<and>
             map snd ens = map (\<lambda>img. binary_bytes (projr (atob (data img)))) images \<and>
             createZipFromBase64Images images =
               Inr \<lparr>blob_bytes =
                      concat (map local_bytes ens) @ concat (map ch_bytes (cds 0 ens)) @
                      er_bytes (length ens) (index_size (cds 0 ens))
                        (sum_list (map local_size ens)),
                    blob_type = ''application/zip''\<rparr> \<and>
             length (concat (map local_bytes ens) @ concat (map ch_bytes (cds 0 ens)) @
                     er_bytes (length ens) (index_size (cds 0 ens))
                       (sum_list (map local_size ens))) =
               (\<Sum>img\<leftarrow>images. 30 + length (TextEncoder_encode (filename img)) +
                  length (projr (atob (data img)))) +
               (\<Sum>img\<leftarrow>images. 46 + length (TextEncoder_encode (filename img))) + 22"
    by blast
next
  assume a: "entries_loop images ([], 0, []) = Inr (zipParts, offset, centralDirectory) \<and>
    createZipFromBase64Images images = Inr b \<and> i < length images"
  then have loop: "entries_loop images ([], 0, []) = Inr (zipParts, offset, centralDirectory)"
    by simp
  from loop obtain ens where ens: "entries_of images = Inr ens"
    "zipParts = concat (map local_parts ens)"
    "offset = sum_list (map local_size ens)" "centralDirectory = cds 0 ens"
    "length ens = length images"
    "createZipFromBase64Images images =
       Inr \<lparr>blob_bytes = archive ens, blob_type = ''application/zip''\<rparr>"
    by (rule encoder_states)
  from ens(6) a have buf: "blob_bytes b = archive ens" by auto
  have i: "i < length ens" using a ens(5) by simp
  have il: "i < length images" using a by simp
  from archive_at_local [OF i] obtain pre post where
    l: "archive ens = pre @ local_bytes (ens ! i) @ post"
       "length pre = cd_offset (cds 0 ens ! i)" by blast
  from archive_at_index [OF i] obtain pre' post' where
    x: "archive ens = pre' @ ch_bytes (cds 0 ens ! i) @ post'"
       "length pre' = index_pos (sum_list (map local_size ens)) (cds 0 ens) i" by blast
  have lb: "local_bytes (ens ! i) @ post =
      lh_bytes (fst (ens ! i)) (length (snd (ens ! i))) @ snd (ens ! i) @ post"
    by (simp add: local_bytes_def)
  have n: "fst (ens ! i) = TextEncoder_encode (filename (images ! i))"
    using entries_of_nth [OF ens(1) il] by (auto simp: entry_of_def fst_def split: sum.splits prod.splits)
  have q1: "cd_size (cds 0 ens ! i) = length (concat (map local_parts ens) ! (2 * i + 1))"
    using nth_local_parts [OF i] by (simp add: cds_nth [OF i])
  have q2: "cd_filenameBytes (cds 0 ens ! i) = TextEncoder_encode (filename (images ! i))"
    by (simp add: cds_nth [OF i] n)
  have q3: "getUint32 (archive ens) (cd_offset (cds 0 ens ! i) + 18) =
      Some (cd_size (cds 0 ens ! i) mod 2 ^ 32)"
    unfolding l(1) using getUint32_at [OF l(2), of 18 "local_bytes (ens ! i)" post]
    by (simp add: lb u32_lh_size1 cds_nth [OF i] local_size_def)
  have q4: "getUint32 (archive ens) (cd_offset (cds 0 ens ! i) + 22) =
      Some (cd_size (cds 0 ens ! i) mod 2 ^ 32)"
    unfolding l(1) using getUint32_at [OF l(2), of 22 "local_bytes (ens ! i)" post]
    by (simp add: lb u32_lh_size2 cds_nth [OF i] local_size_def)
  have q5: "getUint16 (archive ens) (cd_offset (cds 0 ens ! i) + 26) =
      Some (length (cd_filenameBytes (cds 0 ens ! i)) mod 2 ^ 16)"
    unfolding l(1) using getUint16_at [OF l(2), of 26 "local_bytes (ens ! i)" post]
    by (simp add: lb u16_lh_namelen cds_nth [OF i] local_size_def)
  have q6: "getUint32 (archive ens)
      (index_pos (sum_list (map local_size ens)) (cds 0 ens) i + 20) =
        Some (cd_size (cds 0 ens ! i) mod 2 ^ 32)"
    unfolding x(1) using getUint32_at [OF x(2), of 20 "ch_bytes (cds 0 ens ! i)" post']
    by (simp add: u32_ch_size1)
  have q7: "getUint32 (archive ens)
      (index_pos (sum_list (map local_size ens)) (cds 0 ens) i + 24) =
        Some (cd_size (cds 0 ens ! i) mod 2 ^ 32)"
    unfolding x(1) using getUint32_at [OF x(2), of 24 "ch_bytes (cds 0 ens ! i)" post']
    by (simp add: u32_ch_size2)
  have q8: "getUint16 (archive ens)
      (index_pos (sum_list (map local_size ens)) (cds 0 ens) i + 28) =
        Some (length (cd_filenameBytes (cds 0 ens ! i)) mod 2 ^ 16)"
    unfolding x(1) using getUint16_at [OF x(2), of 28 "ch_bytes (cds 0 ens ! i)" post']
    by (simp add: u16_ch_namelen)
  have q9: "getUint32 (archive ens)
      (index_pos (sum_list (map local_size ens)) (cds 0 ens) i + 42) =
        Some (cd_offset (cds 0 ens ! i) mod 2 ^ 32)"
    unfolding x(1) using getUint32_at [OF x(2), of 42 "ch_bytes (cds 0 ens ! i)" post']
    by (simp add: u32_ch_offset)
  from q1 q2 q3 q4 q5 q6 q7 q8 q9
  show "cd_size (centralDirectory ! i) = length (zipParts ! (2 * i + 1))"
    "cd_filenameBytes (centralDirectory ! i) = TextEncoder_encode (filename (images ! i))"
    "getUint32 (blob_bytes b) (cd_offset (centralDirectory ! i) + 18) =
        Some (cd_size (centralDirectory ! i) mod 2 ^ 32)"
    "getUint32 (blob_bytes b) (cd_offset (centralDirectory ! i) + 22) =
        Some (cd_size (centralDirectory ! i) mod 2 ^ 32)"
    "getUint16 (blob_bytes b) (cd_offset (centralDirectory ! i) + 26) =
        Some (length (cd_filenameBytes (centralDirectory ! i)) mod 2 ^ 16)"
    "getUint32 (blob_bytes b) (index_pos offset centralDirectory i + 20) =
        Some (cd_size (centralDirectory ! i) mod 2 ^ 32)"
    "getUint32 (blob_bytes b) (index_pos offset centralDirectory i + 24) =
        Some (cd_size (centralDirectory ! i) mod 2 ^ 32)"
    "getUint16 (blob_bytes b) (index_pos offset centralDirectory i + 28) =
        Some (length (cd_filenameBytes (centralDirectory ! i)) mod 2 ^ 16)"
    "getUint32 (blob_bytes b) (index_pos offset centralDirectory i + 42) =
        Some (cd_offset (centralDirectory ! i) mod 2 ^ 32)"
    unfolding buf ens(2,3,4) by simp_all
qed

text \<open>
  C9 at two lists: one whose second payload has five base64 characters fails as a whole;
  the example list gives the 205 bytes of the example archive, in which the size and name
  length fields of the second entry read 6 and 5 and the offset field of its index record
  reads 40.
\<close>

theorem encoder_fails_only_on_invalid_base64_witness:
  "createZipFromBase64Images broken_images = Inl InvalidCharacterError \<and>
   createZipFromBase64Images example_images =
     Inr \<lparr>blob_bytes = example_archive, blob_type = ''application/zip''\<rparr> \<and>
   length example_archive = 205 \<and>
   getUint32 example_archive (40 + 18) = Some 6 \<and>
   getUint16 example_archive (40 + 26) = Some 5 \<and>
   getUint32 example_archive (132 + 20) = Some 6 \<and>
   getUint16 example_archive (132 + 28) = Some 5 \<and>
   getUint32 example_archive (132 + 42) = Some 40"
proof -
  let ?b = "\<lparr>blob_bytes = example_archive, blob_type = ''application/zip''\<rparr>"
  have bad: "\<exists>img \<in> set broken_images. isl (atob (data img))"
    by (simp add: broken_images_def atob_broken)
  have good: "\<forall>img \<in> set example_images. \<not> isl (atob (data img))"
    by (simp add: example_images_def atob_hello atob_world)
  have st: "entries_loop example_images ([], 0, []) =
      Inr (concat (map local_parts example_entries), 81, cds 0 example_entries) \<and>
    createZipFromBase64Images example_images = Inr ?b \<and> 1 < length example_images"
    using example_loop example_zip by (simp add: example_images_length)
  have c: "cds 0 example_entries ! 1 =
     \<lparr>cd_offset = 40, cd_filenameBytes = [0x79, 0x2E, 0x74, 0x78, 0x74], cd_size = 6\<rparr>"
    by (simp add: example_entries_def local_size_def)
  have x: "index_pos 81 (cds 0 example_entries) 1 = 132"
    by (simp add: example_entries_def local_size_def index_pos_def index_size_def)
  from encoder_fails_only_on_invalid_base64 [of broken_images] bad
  have w1: "createZipFromBase64Images broken_images = Inl InvalidCharacterError" by blast
  from encoder_fails_only_on_invalid_base64 [of example_images] good
  obtain ens where e:
    "map fst ens = map (\<lambda>img. TextEncoder_encode (filename img)) example_images"
    "map snd ens = map (\<lambda>img. binary_bytes (projr (atob (data img)))) example_images"
    "createZipFromBase64Images example_images =
       Inr \<lparr>blob_bytes =
              concat (map local_bytes ens) @ concat (map ch_bytes (cds 0 ens)) @
              er_bytes (length ens) (index_size (cds 0 ens)) (sum_list (map local_size ens)),
            blob_type = ''application/zip''\<rparr>"
    "length (concat (map local_bytes ens) @ concat (map ch_bytes (cds 0 ens)) @
             er_bytes (length ens) (index_size (cds 0 ens)) (sum_list (map local_size ens))) =
       (\<Sum>img\<leftarrow>example_images. 30 + length (TextEncoder_encode (filename img)) +
          length (projr (atob (data img)))) +
       (\<Sum>img\<leftarrow>example_images. 46 + length (TextEncoder_encode (filename img))) + 22"
    by blast
  from e(3) have w2: "createZipFromBase64Images example_images = Inr ?b"
    by (simp add: example_zip)
  from e(3) have eq: "example_archive =
      concat (map local_bytes ens) @ concat (map ch_bytes (cds 0 ens)) @
      er_bytes (length ens) (index_size (cds 0 ens)) (sum_list (map local_size ens))"
    by (simp add: example_zip)
  have "(\<Sum>img\<leftarrow>example_images. 30 + length (TextEncoder_encode (filename img)) +
          length (projr (atob (data img)))) +
       (\<Sum>img\<leftarrow>example_images. 46 + length (TextEncoder_encode (filename img))) + 22 = 205"
    by (simp add: example_images_def atob_hello atob_world enc_x enc_y)
  with e(4) have w3: "length example_archive = 205"
    unfolding eq by (simp only:)
  from encoder_fails_only_on_invalid_base64
    [of example_images "concat (map local_parts example_entries)" 81 "cds 0 example_entries" ?b 1] st
  have "getUint32 (blob_bytes ?b) (cd_offset (cds 0 example_entries ! 1) + 18) =
      Some (cd_size (cds 0 example_entries ! 1) mod 2 ^ 32)"
    "getUint16 (blob_bytes ?b) (cd_offset (cds 0 example_entries ! 1) + 26) =
      Some (length (cd_filenameBytes (cds 0 example_entries ! 1)) mod 2 ^ 16)"
    "getUint32 (blob_bytes ?b) (index_pos 81 (cds 0 example_entries) 1 + 20) =
      Some (cd_size (cds 0 example_entries ! 1) mod 2 ^ 32)"
    "getUint16 (blob_bytes ?b) (index_pos 81 (cds 0 example_entries) 1 + 28) =
      Some (length (cd_filenameBytes (cds 0 example_entries ! 1)) mod 2 ^ 16)"
    "getUint32 (blob_bytes ?b) (index_pos 81 (cds 0 example_entries) 1 + 42) =
      Some (cd_offset (cds 0 example_entries ! 1) mod 2 ^ 32)"
    by blast+
  then have w4: "getUint32 example_archive (40 + 18) = Some 6"
    "getUint16 example_archive (40 + 26) = Some 5"
    "getUint32 example_archive (132 + 20) = Some 6"
    "getUint16 example_archive (132 + 28) = Some 5"
    "getUint32 example_archive (132 + 42) = Some 40"
    unfolding c x by simp_all
  from w1 w2 w3 w4 show ?thesis by blast
qed

text \<open>
  C9 as stated fails. A name that is an unpaired surrogate, which UTF-8 cannot encode, is
  written as U+FFFD and the build succeeds. A name of 65537 bytes, beyond the range of
  the 16-bit name length field, is accepted, and the field of its local header reads 1.
  The 23 images of 192 MiB each are accepted: the last local header is recorded at offset
  4429185706, beyond the range of the 32-bit offset field of its index record, which
  reads 134218410.
\<close>

theorem malformed_entries_accepted_counterexample:
  "TextEncoder_encode (filename (surrogate_images ! 0)) = [0xEF, 0xBF, 0xBD] \<and>
   \<not> isl (createZipFromBase64Images surrogate_images) \<and>
   length (TextEncoder_encode (filename (long_name_images ! 0))) = 65537 \<and>
   \<not> isl (createZipFromBase64Images long_name_images) \<and>
   getUint16 long_name_buffer 26 = Some 1 \<and>
   \<not> isl (createZipFromBase64Images big_images) \<and>
   cd_offset (cds 0 big_entries ! 22) = 4429185706 \<and>
   getUint32 big_buffer (index_pos 4630512329 (cds 0 big_entries) 22 + 42) = Some 134218410"
proof -
  have b: "big_buffer = archive big_entries" by (simp add: big_buffer_def big_zip)
  have l: "long_name_buffer = archive [(replicate 65537 0x61, [])]"
    by (simp add: long_name_buffer_def long_name_zip)
  have n: "TextEncoder_encode (filename (surrogate_images ! 0)) = [0xEF, 0xBF, 0xBD]"
    by (simp add: surrogate_images_def enc_surrogate)
  have m: "length (TextEncoder_encode (filename (long_name_images ! 0))) = 65537"
    by (simp add: long_name_images_def enc_long_name)
  show ?thesis
    unfolding b l
    by (simp add: n m createZip_ok [OF surrogate_entries_of] long_name_zip long_name_field
        big_zip big_last_offset big_offset_field)
qed

subsection \<open>C10: The empty list\<close>

text \<open>
  C10. Called on the empty list, the encoder returns a buffer of exactly 22 bytes, the
  trailer record alone: the end-of-central-directory signature, both entry counts 0, index
  length 0, index start 0 and comment length 0. It is a zero-entry archive, not an error.
\<close>

theorem empty_list_gives_trailer_only:
  "(let buf = [0x50, 0x4B, 0x05, 0x06, 0, 0, 0, 0, 0, 0, 0, 0, 0, 0, 0, 0, 0, 0, 0, 0, 0, 0]
    in createZipFromBase64Images [] =
         Inr \<lparr>blob_bytes = buf, blob_type = ''application/zip''\<rparr> \<and>
       length buf = 22 \<and>
       getUint32 buf 0 = Some END_OF_CENTRAL_DIR_SIG \<and>
       getUint16 buf 8 = Some 0 \<and>
       getUint16 buf 10 = Some 0 \<and>
       getUint32 buf 12 = Some 0 \<and>
       getUint32 buf 16 = Some 0 \<and>
       getUint16 buf 20 = Some 0)"
proof -
  have "createZipFromBase64Images [] =
      Inr \<lparr>blob_bytes = er_bytes 0 0 0, blob_type = ''application/zip''\<rparr>"
    by (simp add: createZipFromBase64Images_def endRecord_eq)
  moreover have "er_bytes 0 0 0 =
      [0x50, 0x4B, 0x05, 0x06, 0, 0, 0, 0, 0, 0, 0, 0, 0, 0, 0, 0, 0, 0, 0, 0, 0, 0]"
    by (simp add: er_bytes_def le16_def le32_def END_OF_CENTRAL_DIR_SIG_def)
  ultimately show ?thesis
    by (simp add: Let_def getUint16_def getUint32_def u16_def u32_def
        END_OF_CENTRAL_DIR_SIG_def)
qed

end
